theory Spec2Isabelle
  imports Complex_Main "HOL-Library.Multiset"
begin

section \<open>JavaScript numbers\<close>

text \<open>
  A JavaScript \<open>number\<close> is an IEEE double. The model keeps the three non-finite
  values apart and takes a finite value as the real number it denotes: rounding error
  and overflow of finite arithmetic are not modelled, \<open>NaN\<close> and the infinities are.
\<close>

datatype jsnum = Fin real | PInf | NInf | NaN

fun isFinite :: "jsnum \<Rightarrow> bool" where
  "isFinite (Fin x) = True"
| "isFinite _ = False"

fun isNaN :: "jsnum \<Rightarrow> bool" where
  "isNaN NaN = True"
| "isNaN _ = False"

text \<open>\<open>a - b\<close>.\<close>

fun js_sub :: "jsnum \<Rightarrow> jsnum \<Rightarrow> jsnum" where
  "js_sub (Fin a) (Fin b) = Fin (a - b)"
| "js_sub NaN _ = NaN"
| "js_sub _ NaN = NaN"
| "js_sub PInf PInf = NaN"
| "js_sub NInf NInf = NaN"
| "js_sub PInf _ = PInf"
| "js_sub NInf _ = NInf"
| "js_sub (Fin a) PInf = NInf"
| "js_sub (Fin a) NInf = PInf"

text \<open>\<open>a < b\<close>, \<open>a > b\<close> and \<open>a <= b\<close>: every comparison with \<open>NaN\<close> is false.\<close>

fun js_lt :: "jsnum \<Rightarrow> jsnum \<Rightarrow> bool" where
  "js_lt (Fin a) (Fin b) = (a < b)"
| "js_lt NaN _ = False"
| "js_lt _ NaN = False"
| "js_lt NInf NInf = False"
| "js_lt NInf _ = True"
| "js_lt _ NInf = False"
| "js_lt PInf _ = False"
| "js_lt (Fin a) PInf = True"

definition js_gt :: "jsnum \<Rightarrow> jsnum \<Rightarrow> bool" where
  "js_gt a b = js_lt b a"

fun js_le :: "jsnum \<Rightarrow> jsnum \<Rightarrow> bool" where
  "js_le NaN _ = False"
| "js_le _ NaN = False"
| "js_le a b = (a = b \<or> js_lt a b)"

text \<open>\<open>c * x\<close> and \<open>x / c\<close> for a positive finite constant \<open>c\<close> (the only products and
  quotients of the program on values that may be non-finite).\<close>

fun js_mulc :: "real \<Rightarrow> jsnum \<Rightarrow> jsnum" where
  "js_mulc c (Fin x) = Fin (c * x)"
| "js_mulc c v = v"

fun js_divc :: "jsnum \<Rightarrow> real \<Rightarrow> jsnum" where
  "js_divc (Fin x) c = Fin (x / c)"
| "js_divc v c = v"

text \<open>\<open>Math.round\<close>: the nearest integer, a tie going up.\<close>

fun Math_round :: "jsnum \<Rightarrow> jsnum" where
  "Math_round (Fin x) = Fin (of_int \<lfloor>x + 1 / 2\<rfloor>)"
| "Math_round v = v"

text \<open>The value of a finite number (used only where the code has checked \<open>isFinite\<close>).\<close>

fun fin_val :: "jsnum \<Rightarrow> real" where
  "fin_val (Fin x) = x"
| "fin_val _ = 0"

section \<open>lib/geo.ts\<close>

record latlon =
  lat :: jsnum
  lon :: jsnum

record obs = latlon +
  ts :: jsnum
  alt :: "jsnum option"

record trackpoint = obs +
  pid :: string

record track =
  tid :: string
  points :: "trackpoint list"

text \<open>
  \<open>haversineKm\<close>. A non-finite coordinate reaches \<open>Math.sin\<close> as an infinity or as
  \<open>NaN\<close> and makes the sum \<open>x\<close>, and so the result, \<open>NaN\<close>. On finite coordinates the
  sum \<open>x\<close> is taken in the reals. There it is never negative (lemma \<open>hav_x_nonneg\<close> for
  latitudes within 90 degrees), so the branch for a negative \<open>x\<close>, where \<open>Math.sqrt\<close> gives
  \<open>NaN\<close>, is written out but not taken. In doubles the product of the two cosines is
  negative for a latitude beyond 90 degrees and \<open>x\<close> can fall below zero by rounding: from
  latitude 94, longitude 0 to latitude 86, longitude 180 the reals give \<open>x = 0\<close> and the
  distance 0, the doubles give \<open>x\<close> about \<open>-1.3e-17\<close> and the distance \<open>NaN\<close>. With both
  latitudes within 90 degrees the cosines of the doubles are not negative and neither is
  \<open>x\<close>. So the statements below that depend on the value of a distance are made for
  latitudes within 90 degrees (\<open>valid_coord\<close>) or for given places on the equator, and they
  give the distance the reals give, from which the double differs by its rounding error.
\<close>

definition hav_x :: "real \<Rightarrow> real \<Rightarrow> real \<Rightarrow> real \<Rightarrow> real" where
  "hav_x alat alon blat blon =
     (let dLat = (blat - alat) * pi / 180;
          dLon = (blon - alon) * pi / 180;
          lat1 = alat * pi / 180;
          lat2 = blat * pi / 180
      in (sin (dLat / 2))\<^sup>2 + cos lat1 * cos lat2 * (sin (dLon / 2))\<^sup>2)"

definition haversineKm :: "'a latlon_scheme \<Rightarrow> 'b latlon_scheme \<Rightarrow> jsnum" where
  "haversineKm a b =
     (case (lat a, lon a, lat b, lon b) of
        (Fin alat, Fin alon, Fin blat, Fin blon) \<Rightarrow>
          (let x = hav_x alat alon blat blon
           in if x < 0 then NaN else Fin (2 * 6371 * arcsin (sqrt x)))
      | _ \<Rightarrow> NaN)"

text \<open>
  \<open>x.toFixed(5)\<close> as the data its string stands for: the sign and the integer
  \<open>n\<close> nearest to \<open>|x| * 10^5\<close> (the larger one at a tie); from \<open>10^21\<close> on, and for a
  non-finite \<open>x\<close>, the string of the number itself.
\<close>

datatype fixed = Digits bool int | Plain jsnum

fun toFixed5 :: "jsnum \<Rightarrow> fixed" where
  "toFixed5 (Fin x) =
     (if \<bar>x\<bar> < 10 ^ 21 then Digits (x < 0) \<lfloor>\<bar>x\<bar> * 10 ^ 5 + 1 / 2\<rfloor> else Plain (Fin x))"
| "toFixed5 v = Plain v"

type_synonym key = "string \<times> jsnum \<times> fixed \<times> fixed"

definition key_of :: "trackpoint \<Rightarrow> key" where
  "key_of p = (pid p, ts p, toFixed5 (lat p), toFixed5 (lon p))"

fun dedupe :: "trackpoint list \<Rightarrow> key set \<Rightarrow> trackpoint list" where
  "dedupe [] seen = []"
| "dedupe (p # ps) seen =
     (if key_of p \<notin> seen \<and> isFinite (lat p) \<and> isFinite (lon p) \<and> isFinite (ts p)
      then p # dedupe ps (insert (key_of p) seen)
      else dedupe ps seen)"

text \<open>\<open>out.sort((a, b) => a.ts - b.ts)\<close> on points whose \<open>ts\<close> is finite: a stable sort.\<close>

definition dedupeAndSort :: "trackpoint list \<Rightarrow> trackpoint list" where
  "dedupeAndSort ps = sort_key (\<lambda>p. fin_val (ts p)) (dedupe ps {})"

section \<open>api/balloons/route.ts: linkTracks\<close>

datatype error = TypeError | FetchError

text \<open>The decimal digits of a number, and the identifier \<open>`T${nextId++}`\<close>.\<close>

fun dec :: "nat \<Rightarrow> string" where
  "dec n = (if n < 10 then [''0123456789'' ! n] else dec (n div 10) @ [''0123456789'' ! (n mod 10)])"

declare dec.simps [simp del]

definition mkId :: "nat \<Rightarrow> string" where
  "mkId n = CHR ''T'' # dec n"

text \<open>\<open>{ ...p, id }\<close>.\<close>

definition withId :: "obs \<Rightarrow> string \<Rightarrow> trackpoint" where
  "withId p i = \<lparr>lat = lat p, lon = lon p, ts = ts p, alt = alt p, pid = i\<rparr>"

definition newTrack :: "nat \<Rightarrow> obs \<Rightarrow> track" where
  "newTrack n p = \<lparr>tid = mkId n, points = [withId p (mkId n)]\<rparr>"

text \<open>
  The inner loop over \<open>tracks\<close> for one observation \<open>p\<close>: the list still to visit, the
  index \<open>t\<close> of its head, and \<open>(bestIdx, bestKm)\<close> (\<open>None\<close> for \<open>-1\<close>). Reading the last
  point of a track with no point gives \<open>undefined\<close>, whose \<open>.ts\<close> throws.
\<close>

fun scanTracks ::
  "obs \<Rightarrow> string set \<Rightarrow> track list \<Rightarrow> nat \<Rightarrow> nat option \<times> jsnum \<Rightarrow> error + (nat option \<times> jsnum)"
where
  "scanTracks p usedTrack [] t best = Inr best"
| "scanTracks p usedTrack (tr # trs) t (bestIdx, bestKm) =
     (if tid tr \<in> usedTrack then scanTracks p usedTrack trs (Suc t) (bestIdx, bestKm)
      else if points tr = [] then Inl TypeError
      else
        (let lastp = last (points tr);
             dt = js_sub (ts p) (ts lastp)
         in if js_lt dt (Fin 1800) \<or> js_gt dt (Fin 5400)
            then scanTracks p usedTrack trs (Suc t) (bestIdx, bestKm)
            else
              (let km = haversineKm lastp p;
                   hours = js_divc dt 3600;
                   allowed = js_mulc 200 hours
               in if js_gt km allowed then scanTracks p usedTrack trs (Suc t) (bestIdx, bestKm)
                  else if js_lt km bestKm then scanTracks p usedTrack trs (Suc t) (Some t, km)
                  else scanTracks p usedTrack trs (Suc t) (bestIdx, bestKm))))"

text \<open>The loop over the observations of one hour, with \<open>usedTrack\<close> and \<open>usedPoint\<close>.\<close>

fun linkPoints ::
  "obs list \<Rightarrow> nat \<Rightarrow> track list \<times> string set \<times> nat set
     \<Rightarrow> error + (track list \<times> string set \<times> nat set)"
where
  "linkPoints [] i st = Inr st"
| "linkPoints (p # ps) i (tracks, usedTrack, usedPoint) =
     (case scanTracks p usedTrack tracks 0 (None, PInf) of
        Inl e \<Rightarrow> Inl e
      | Inr (None, bestKm) \<Rightarrow> linkPoints ps (Suc i) (tracks, usedTrack, usedPoint)
      | Inr (Some bestIdx, bestKm) \<Rightarrow>
          (let tr = tracks ! bestIdx
           in linkPoints ps (Suc i)
                (tracks[bestIdx := tr\<lparr>points := points tr @ [withId p (tid tr)]\<rparr>],
                 insert (tid tr) usedTrack, insert i usedPoint)))"

text \<open>The observations not in \<open>usedPoint\<close> start new tracks.\<close>

fun startTracks :: "obs list \<Rightarrow> nat \<Rightarrow> nat set \<Rightarrow> track list \<times> nat \<Rightarrow> track list \<times> nat" where
  "startTracks [] i usedPoint st = st"
| "startTracks (p # ps) i usedPoint (tracks, nextId) =
     (if i \<in> usedPoint then startTracks ps (Suc i) usedPoint (tracks, nextId)
      else startTracks ps (Suc i) usedPoint (tracks @ [newTrack nextId p], Suc nextId))"

text \<open>One iteration of the loop over the hours.\<close>

definition linkHour :: "obs list \<Rightarrow> track list \<times> nat \<Rightarrow> error + (track list \<times> nat)" where
  "linkHour pts st =
     (if pts = [] then Inr st
      else if fst st = [] then Inr (startTracks pts 0 {} st)
      else case linkPoints pts 0 (fst st, {}, {}) of
             Inl e \<Rightarrow> Inl e
           | Inr (tracks, usedTrack, usedPoint) \<Rightarrow> Inr (startTracks pts 0 usedPoint (tracks, snd st)))"

fun linkHours :: "obs list list \<Rightarrow> track list \<times> nat \<Rightarrow> error + (track list \<times> nat)" where
  "linkHours [] st = Inr st"
| "linkHours (pts # rest) st =
     (case linkHour pts st of Inl e \<Rightarrow> Inl e | Inr st' \<Rightarrow> linkHours rest st')"

text \<open>\<open>linkTracks\<close>: the hours from the last index down to 0, then the post-processing.\<close>

definition linkTracks :: "obs list list \<Rightarrow> error + track list" where
  "linkTracks hourly =
     (case linkHours (rev hourly) ([], 1) of
        Inl e \<Rightarrow> Inl e
      | Inr (tracks, nextId) \<Rightarrow>
          Inr (filter (\<lambda>t. length (points t) \<ge> 2)
                 (map (\<lambda>tr. tr\<lparr>points := dedupeAndSort (points tr)\<rparr>) tracks)))"

section \<open>Strings and parsed payloads\<close>

text \<open>
  A JavaScript string is a sequence of UTF-16 code units, here natural numbers;
  \<open>jstr\<close> writes an ASCII literal. A parsed payload is a JSON value; an object
  lists its properties in the order \<open>Object.values\<close> enumerates them, each key once.
\<close>

type_synonym jstring = "nat list"

definition jstr :: "string \<Rightarrow> jstring" where
  "jstr s = map of_char s"

datatype json =
    JNull
  | JBool bool
  | JNum jsnum
  | JStr jstring
  | JArr "json list"
  | JObj "(jstring \<times> json) list"

text \<open>
  What the program takes from the JavaScript runtime: \<open>JSON.parse\<close> (\<open>None\<close> where it
  throws), \<open>Number(v)\<close> for a string, an array or an object \<open>v\<close> (taken as total), and
  \<open>Date.parse\<close>.
\<close>

record platform =
  JSON_parse :: "jstring \<Rightarrow> json option"
  Number_of :: "json \<Rightarrow> jsnum"
  Date_parse :: "jstring \<Rightarrow> jsnum"

section \<open>lib/safe-json.ts\<close>

text \<open>The characters of \<open>\s\<close> and of \<open>trim\<close>: white space and line terminators.\<close>

definition isSpace :: "nat \<Rightarrow> bool" where
  "isSpace c = (c = 9 \<or> c = 10 \<or> c = 11 \<or> c = 12 \<or> c = 13 \<or> c = 32 \<or> c = 160 \<or> c = 5760
                \<or> (8192 \<le> c \<and> c \<le> 8202) \<or> c = 8232 \<or> c = 8233 \<or> c = 8239 \<or> c = 8287
                \<or> c = 12288 \<or> c = 65279)"

text \<open>Matching under the flag \<open>i\<close>: only the ASCII letters are folded.\<close>

definition foldCase :: "nat \<Rightarrow> nat" where
  "foldCase c = (if 65 \<le> c \<and> c \<le> 90 then c + 32 else c)"

definition ci_prefix :: "jstring \<Rightarrow> jstring \<Rightarrow> bool" where
  "ci_prefix w s = (map foldCase (take (length w) s) = map foldCase w)"

text \<open>
  \<open>s.replace(re, ...)\<close> with the flag \<open>g\<close>: the matcher \<open>m c cs\<close> tries the regular
  expression at the text \<open>c # cs\<close> and gives the replacement and the number of characters
  of \<open>cs\<close> the match covers; the search goes on behind the match.
\<close>

fun gsub :: "(nat \<Rightarrow> jstring \<Rightarrow> (jstring \<times> nat) option) \<Rightarrow> jstring \<Rightarrow> jstring" where
  "gsub m [] = []"
| "gsub m (c # cs) =
     (case m c cs of
        Some (rep, k) \<Rightarrow> rep @ gsub m (drop k cs)
      | None \<Rightarrow> c # gsub m cs)"

text \<open>\<open>/,\s*([}\]])/g\<close>, replaced by \<open>$1\<close> (44 is the comma, 125 and 93 close).\<close>

definition m_comma :: "nat \<Rightarrow> jstring \<Rightarrow> (jstring \<times> nat) option" where
  "m_comma c cs =
     (if c = 44 then
        (case dropWhile isSpace cs of
           [] \<Rightarrow> None
         | b # rest \<Rightarrow>
             if b = 125 \<or> b = 93 then Some ([b], Suc (length (takeWhile isSpace cs))) else None)
      else None)"

text \<open>\<open>/:\s*NaN/gi\<close>, \<open>/:\s*Infinity/gi\<close> and \<open>/:\s*-Infinity/gi\<close>, replaced by \<open>: null\<close>.\<close>

definition m_word :: "jstring \<Rightarrow> nat \<Rightarrow> jstring \<Rightarrow> (jstring \<times> nat) option" where
  "m_word w c cs =
     (if c = 58 \<and> ci_prefix w (dropWhile isSpace cs)
      then Some (jstr '': null'', length (takeWhile isSpace cs) + length w)
      else None)"

text \<open>\<open>/:\s*'([^']*)'/g\<close>, replaced by \<open>: "$1"\<close> (39 is the apostrophe, 34 the quote).\<close>

definition m_quote :: "nat \<Rightarrow> jstring \<Rightarrow> (jstring \<times> nat) option" where
  "m_quote c cs =
     (if c = 58 then
        (case dropWhile isSpace cs of
           [] \<Rightarrow> None
         | q # rest \<Rightarrow>
             if q = 39 then
               (let body = takeWhile (\<lambda>x. x \<noteq> 39) rest
                in case dropWhile (\<lambda>x. x \<noteq> 39) rest of
                     [] \<Rightarrow> None
                   | q' # rest' \<Rightarrow>
                       Some ([58, 32, 34] @ body @ [34],
                             length (takeWhile isSpace cs) + 1 + length body + 1))
             else None)
      else None)"

text \<open>The byte-order mark (code unit 65279) at the start of the text is removed; then the
  light cleanup.\<close>

definition stripBOM :: "jstring \<Rightarrow> jstring" where
  "stripBOM text = (case text of [] \<Rightarrow> [] | c # cs \<Rightarrow> if c = 65279 then cs else c # cs)"

definition cleanup :: "jstring \<Rightarrow> jstring" where
  "cleanup clean0 =
     gsub m_quote
       (gsub (m_word (jstr ''-Infinity''))
          (gsub (m_word (jstr ''Infinity''))
             (gsub (m_word (jstr ''NaN''))
                (gsub m_comma clean0))))"

text \<open>\<open>split(/\r?\n/)\<close>: a line feed separates, a carriage return right before it goes
  with it.\<close>

fun splitLines :: "jstring \<Rightarrow> jstring list" where
  "splitLines [] = [[]]"
| "splitLines (c # cs) =
     (if c = 13 \<and> (case cs of [] \<Rightarrow> False | d # ds \<Rightarrow> d = 10) then splitLines cs
      else if c = 10 then [] # splitLines cs
      else (case splitLines cs of [] \<Rightarrow> [[c]] | l # ls \<Rightarrow> (c # l) # ls))"

definition trim :: "jstring \<Rightarrow> jstring" where
  "trim s = rev (dropWhile isSpace (rev (dropWhile isSpace s)))"

text \<open>The lines of stage 3: trimmed, not empty, and beginning with \<open>{\<close> (123) or
  \<open>[\<close> (91).\<close>

definition jsonLines :: "jstring \<Rightarrow> jstring list" where
  "jsonLines cleaned =
     filter (\<lambda>l. l \<noteq> [] \<and> (hd l = 123 \<or> hd l = 91)) (map trim (splitLines cleaned))"

text \<open>\<open>for (const line of lines) { try { arr.push(JSON.parse(line)); } catch {} }\<close>.\<close>

definition parseLines :: "platform \<Rightarrow> jstring list \<Rightarrow> json list" where
  "parseLines pf ls = List.map_filter (JSON_parse pf) ls"

text \<open>\<open>cleaned.match(/([\[{][\s\S]*[\]}])/)\<close>: from the first \<open>[\<close> or \<open>{\<close> to the last
  \<open>]\<close> or \<open>}\<close> behind it.\<close>

definition firstBlock :: "jstring \<Rightarrow> jstring option" where
  "firstBlock cleaned =
     (let fromOpen = dropWhile (\<lambda>c. c \<noteq> 91 \<and> c \<noteq> 123) cleaned
      in case fromOpen of
           [] \<Rightarrow> None
         | c # cs \<Rightarrow>
             (let body = rev (dropWhile (\<lambda>c. c \<noteq> 93 \<and> c \<noteq> 125) (rev cs))
              in if body = [] then None else Some (c # body)))"

text \<open>\<open>safeParseJSON\<close>; its \<open>null\<close> is the JSON value \<open>null\<close>.\<close>

definition safeParseJSON :: "platform \<Rightarrow> jstring \<Rightarrow> json" where
  "safeParseJSON pf text =
     (let clean0 = stripBOM text
      in case JSON_parse pf clean0 of
           Some v \<Rightarrow> v
         | None \<Rightarrow>
             (let cleaned = cleanup clean0
              in case JSON_parse pf cleaned of
                   Some v \<Rightarrow> v
                 | None \<Rightarrow>
                     (let lines = jsonLines cleaned;
                          arr = parseLines pf lines
                      in if length lines > 0 \<and> length arr > 0 then JArr arr
                         else
                           (case firstBlock cleaned of
                              None \<Rightarrow> JNull
                            | Some block \<Rightarrow>
                                (case JSON_parse pf block of Some v \<Rightarrow> v | None \<Rightarrow> JNull)))))"

section \<open>api/balloons/route.ts: extraction\<close>

text \<open>\<open>Math.floor(Date.now() / 1000) - hourIdx * 3600\<close>, with \<open>now\<close> the clock in
  milliseconds.\<close>

definition toEpochSecondsFromHourIdx :: "int \<Rightarrow> nat \<Rightarrow> jsnum" where
  "toEpochSecondsFromHourIdx now hourIdx = Fin (of_int (now div 1000) - of_nat hourIdx * 3600)"

text \<open>\<open>Number(v)\<close>; \<open>None\<close> is \<open>undefined\<close>.\<close>

fun Number_js :: "platform \<Rightarrow> json option \<Rightarrow> jsnum" where
  "Number_js pf None = NaN"
| "Number_js pf (Some JNull) = Fin 0"
| "Number_js pf (Some (JBool b)) = Fin (if b then 1 else 0)"
| "Number_js pf (Some (JNum x)) = x"
| "Number_js pf (Some v) = Number_of pf v"

text \<open>
  The branch of \<open>toEpochSeconds\<close> for a number. The quotient \<open>x / 1000\<close> is taken in the
  reals; the double quotient is rounded to a double before \<open>Math.round\<close> sees it. The two
  agree for every integer number of milliseconds below \<open>2^53\<close> in size (the error of the
  quotient stays under a thousandth there) and can differ by one beyond: for \<open>x = 2^59\<close>
  the reals give 576460752303423, the doubles 576460752303424. An infinity goes through
  both branches as it is.
\<close>

definition epochOfNumber :: "jsnum \<Rightarrow> jsnum" where
  "epochOfNumber x = (if js_gt x (Fin (10 ^ 11)) then Math_round (js_divc x 1000) else Math_round x)"

fun toEpochSeconds :: "platform \<Rightarrow> json option \<Rightarrow> jsnum option" where
  "toEpochSeconds pf None = None"
| "toEpochSeconds pf (Some JNull) = None"
| "toEpochSeconds pf (Some (JNum x)) = Some (epochOfNumber x)"
| "toEpochSeconds pf (Some (JStr s)) =
     (let n = Number_of pf (JStr s)
      in if \<not> isNaN n then Some (epochOfNumber n)
         else
           (let d = Date_parse pf s
            in if \<not> isNaN d then Some (Math_round (js_divc d 1000)) else None))"
| "toEpochSeconds pf (Some v) = None"

text \<open>
  \<open>obj.k\<close> on a value that is not \<open>null\<close>: the property of an object, \<open>undefined\<close> on
  an array or a primitive (no prototype has one of the keys read here).
\<close>

fun field :: "json \<Rightarrow> string \<Rightarrow> json option" where
  "field (JObj kvs) k = map_of kvs (jstr k)"
| "field v k = None"

definition nullish :: "json option \<Rightarrow> bool" where
  "nullish v = (v = None \<or> v = Some JNull)"

text \<open>\<open>a ?? b ?? ...\<close>.\<close>

fun coalesce :: "json option list \<Rightarrow> json option" where
  "coalesce [] = None"
| "coalesce [v] = v"
| "coalesce (v # w # vs) = (if nullish v then coalesce (w # vs) else v)"

definition firstOf :: "json \<Rightarrow> string list \<Rightarrow> json option" where
  "firstOf obj ks = coalesce (map (field obj) ks)"

definition mkObs :: "jsnum \<Rightarrow> jsnum \<Rightarrow> jsnum \<Rightarrow> jsnum option \<Rightarrow> obs" where
  "mkObs t la lo al = \<lparr>lat = la, lon = lo, ts = t, alt = al\<rparr>"

text \<open>Case A, one row.\<close>

definition rowA :: "platform \<Rightarrow> jsnum \<Rightarrow> json \<Rightarrow> obs list" where
  "rowA pf t row =
     (case row of
        JArr r \<Rightarrow>
          if length r \<ge> 2 then
            (let la = Number_js pf (Some (r ! 0));
                 lo = Number_js pf (Some (r ! 1));
                 al = (if length r \<ge> 3 then Some (Number_js pf (Some (r ! 2))) else None)
             in if isFinite la \<and> isFinite lo then [mkObs t la lo al] else [])
          else []
      | _ \<Rightarrow> [])"

text \<open>Case B, one element: reading a property of \<open>null\<close> throws.\<close>

definition recordB :: "platform \<Rightarrow> jsnum \<Rightarrow> json \<Rightarrow> error + obs list" where
  "recordB pf t obj =
     (if obj = JNull then Inl TypeError
      else
        (let la = firstOf obj [''lat'', ''latitude'', ''y'', ''Lat'', ''Y''];
             lo = firstOf obj [''lon'', ''lng'', ''longitude'', ''x'', ''Lon'', ''X''];
             al = firstOf obj [''alt'', ''altitude'', ''Alt'']
         in if \<not> nullish la \<and> \<not> nullish lo then
              (let latN = Number_js pf la; lonN = Number_js pf lo
               in if isFinite latN \<and> isFinite lonN
                  then Inr [mkObs t latN lonN (if \<not> nullish al then Some (Number_js pf al) else None)]
                  else Inr [])
            else Inr []))"

fun recordsB :: "platform \<Rightarrow> jsnum \<Rightarrow> json list \<Rightarrow> error + obs list" where
  "recordsB pf t [] = Inr []"
| "recordsB pf t (obj # objs) =
     (case recordB pf t obj of
        Inl e \<Rightarrow> Inl e
      | Inr os \<Rightarrow> (case recordsB pf t objs of Inl e \<Rightarrow> Inl e | Inr rest \<Rightarrow> Inr (os @ rest)))"

text \<open>Case C: \<open>pushIfValid\<close> and \<open>walk\<close>, giving the observations pushed, in order.\<close>

definition pushIfValid :: "platform \<Rightarrow> jsnum \<Rightarrow> json \<Rightarrow> obs list" where
  "pushIfValid pf t obj =
     (let la = firstOf obj [''lat'', ''latitude'', ''Lat'', ''y'', ''Y''];
          lo = firstOf obj [''lon'', ''lng'', ''long'', ''longitude'', ''Lon'', ''x'', ''X''];
          al = firstOf obj [''alt'', ''altitude'', ''Alt''];
          tsRaw = firstOf obj [''ts'', ''time'', ''timestamp'', ''t'', ''epoch'', ''updated_at'', ''date''];
          t' = (case toEpochSeconds pf tsRaw of None \<Rightarrow> t | Some e \<Rightarrow> e)
      in if \<not> nullish la \<and> \<not> nullish lo then
           (let latN = Number_js pf la; lonN = Number_js pf lo
            in if isFinite latN \<and> isFinite lonN
               then [mkObs t' latN lonN (if \<not> nullish al then Some (Number_js pf al) else None)]
               else [])
         else [])"

fun walk :: "platform \<Rightarrow> jsnum \<Rightarrow> json \<Rightarrow> obs list" where
  "walk pf t (JArr xs) = concat (map (walk pf t) xs)"
| "walk pf t (JObj kvs) = pushIfValid pf t (JObj kvs) @ concat (map (\<lambda>kv. walk pf t (snd kv)) kvs)"
| "walk pf t v = []"

text \<open>\<open>typeof v === "object"\<close>.\<close>

fun typeof_object :: "json \<Rightarrow> bool" where
  "typeof_object JNull = True"
| "typeof_object (JArr xs) = True"
| "typeof_object (JObj kvs) = True"
| "typeof_object v = False"

fun isArray :: "json \<Rightarrow> bool" where
  "isArray (JArr xs) = True"
| "isArray v = False"

definition extractHourPoints :: "platform \<Rightarrow> int \<Rightarrow> json \<Rightarrow> nat \<Rightarrow> error + obs list" where
  "extractHourPoints pf now payload hourIdx =
     (let t = toEpochSecondsFromHourIdx now hourIdx
      in case payload of
           JArr (first # rest) \<Rightarrow>
             if isArray first then Inr (concat (map (rowA pf t) (first # rest)))
             else if typeof_object first then recordsB pf t (first # rest)
             else Inr (walk pf t payload)
         | _ \<Rightarrow> Inr (walk pf t payload))"

section \<open>api/balloons/route.ts: GET\<close>

text \<open>
  \<open>fetchText(url).then(txt => safeParseJSON(txt)).catch(() => null)\<close>: the outcome of
  the fetch of one hour is its text, or a failure (time-out, network error, status that
  is not ok).
\<close>

definition task :: "platform \<Rightarrow> error + jstring \<Rightarrow> json" where
  "task pf outcome = (case outcome of Inl e \<Rightarrow> JNull | Inr txt \<Rightarrow> safeParseJSON pf txt)"

text \<open>The truth value of \<open>r.value\<close>.\<close>

fun truthy :: "json \<Rightarrow> bool" where
  "truthy JNull = False"
| "truthy (JBool b) = b"
| "truthy (JNum x) = (x \<noteq> Fin 0 \<and> x \<noteq> NaN)"
| "truthy (JStr s) = (s \<noteq> [])"
| "truthy v = True"

text \<open>The body of \<open>results.forEach\<close>: every task is fulfilled, with the value of \<open>task\<close>.\<close>

definition hourPoints :: "platform \<Rightarrow> int \<Rightarrow> json \<Rightarrow> nat \<Rightarrow> obs list" where
  "hourPoints pf now v idx =
     (if truthy v then (case extractHourPoints pf now v idx of Inl e \<Rightarrow> [] | Inr os \<Rightarrow> os)
      else [])"

text \<open>
  \<open>GET\<close>: \<open>fetched idx\<close> is the outcome of the fetch of hour \<open>idx\<close>, \<open>clock idx\<close> what
  \<open>Date.now()\<close> gives when that hour is extracted. The result is the \<open>tracks\<close> of the
  response.
\<close>

definition hourly_of :: "platform \<Rightarrow> (nat \<Rightarrow> int) \<Rightarrow> (nat \<Rightarrow> error + jstring) \<Rightarrow> obs list list" where
  "hourly_of pf clock fetched =
     map (\<lambda>idx. hourPoints pf (clock idx) (task pf (fetched idx)) idx) [0..<24]"

definition GET :: "platform \<Rightarrow> (nat \<Rightarrow> int) \<Rightarrow> (nat \<Rightarrow> error + jstring) \<Rightarrow> error + track list" where
  "GET pf clock fetched = linkTracks (hourly_of pf clock fetched)"

section \<open>api/insights/route.ts\<close>

record stat =
  sid :: string
  closest_km :: jsnum
  near_count :: nat
  closest_ts :: "jsnum option"

text \<open>The loop over the fires for one point, on \<open>(minKm, minWhen, nearCount)\<close>.\<close>

fun scanFires ::
  "'a obs_scheme \<Rightarrow> 'b latlon_scheme list \<Rightarrow> jsnum \<times> jsnum option \<times> nat \<Rightarrow> jsnum \<times> jsnum option \<times> nat"
where
  "scanFires p [] acc = acc"
| "scanFires p (f # fs) (minKm, minWhen, nearCount) =
     (let km = haversineKm p f;
          (minKm', minWhen') = (if js_lt km minKm then (km, Some (ts p)) else (minKm, minWhen));
          nearCount' = (if js_le km (Fin 100) then Suc nearCount else nearCount)
      in scanFires p fs (minKm', minWhen', nearCount'))"

fun scanPoints ::
  "'a obs_scheme list \<Rightarrow> 'b latlon_scheme list \<Rightarrow> jsnum \<times> jsnum option \<times> nat \<Rightarrow> jsnum \<times> jsnum option \<times> nat"
where
  "scanPoints [] firePts acc = acc"
| "scanPoints (p # ps) firePts acc = scanPoints ps firePts (scanFires p firePts acc)"

definition trackStat :: "track \<Rightarrow> 'b latlon_scheme list \<Rightarrow> stat" where
  "trackStat t firePts =
     (case scanPoints (points t) firePts (PInf, None, 0) of
        (minKm, minWhen, nearCount) \<Rightarrow>
          \<lparr>sid = tid t, closest_km = js_divc (Math_round (js_mulc 10 minKm)) 10,
           near_count = nearCount, closest_ts = minWhen\<rparr>)"

text \<open>\<open>.sort((a, b) => a.closest_km - b.closest_km)\<close>: stable; a difference that is
  \<open>NaN\<close> counts as 0.\<close>

fun insertStat :: "stat \<Rightarrow> stat list \<Rightarrow> stat list" where
  "insertStat a [] = [a]"
| "insertStat a (b # bs) =
     (if js_gt (js_sub (closest_km a) (closest_km b)) (Fin 0) then b # insertStat a bs
      else a # b # bs)"

definition sortStats :: "stat list \<Rightarrow> stat list" where
  "sortStats xs = foldr insertStat xs []"

definition stats :: "track list \<Rightarrow> 'b latlon_scheme list \<Rightarrow> stat list" where
  "stats tracks firePts = sortStats (map (\<lambda>t. trackStat t firePts) tracks)"

text \<open>
  \<open>NextResponse.json(body)\<close> writes the body with \<open>JSON.stringify\<close>; the response is
  given as the JSON value a caller reads from it. \<open>JSON.stringify\<close> writes a number that is
  not finite as \<open>null\<close> and leaves out a property whose value is \<open>undefined\<close>.
\<close>

definition num_json :: "jsnum \<Rightarrow> json" where
  "num_json x = (if isFinite x then JNum x else JNull)"

definition stat_json :: "stat \<Rightarrow> json" where
  "stat_json s =
     JObj ([(jstr ''id'', JStr (jstr (sid s))),
            (jstr ''closest_km'', num_json (closest_km s)),
            (jstr ''near_count'', JNum (Fin (real (near_count s))))]
           @ (case closest_ts s of None \<Rightarrow> [] | Some w \<Rightarrow> [(jstr ''closest_ts'', num_json w)]))"


section \<open>page.tsx: splitByDatelineAndHops\<close>

fun Math_abs :: "jsnum \<Rightarrow> jsnum" where
  "Math_abs (Fin x) = Fin \<bar>x\<bar>"
| "Math_abs NInf = PInf"
| "Math_abs v = v"

type_synonym coords = "jsnum \<times> jsnum"

text \<open>The loop from \<open>i = 1\<close>: \<open>a\<close> is \<open>filtered[i - 1]\<close>, the list holds \<open>filtered[i]\<close>
  and what follows, the state is \<open>(segs, cur)\<close>.\<close>

fun segLoop ::
  "jsnum \<Rightarrow> obs \<Rightarrow> obs list \<Rightarrow> coords list list \<times> coords list \<Rightarrow> coords list list \<times> coords list"
where
  "segLoop maxHopKm a [] st = st"
| "segLoop maxHopKm a (b # rest) (segs, cur) =
     (let crossesDateline = js_gt (Math_abs (js_sub (lon b) (lon a))) (Fin 180);
          hopKm = haversineKm a b;
          bigHop = js_gt hopKm maxHopKm
      in if crossesDateline \<or> bigHop
         then segLoop maxHopKm b rest (if length cur \<ge> 2 then segs @ [cur] else segs, [(lat b, lon b)])
         else segLoop maxHopKm b rest (segs, cur @ [(lat b, lon b)]))"

definition splitByDatelineAndHops :: "obs list \<Rightarrow> jsnum \<Rightarrow> jsnum \<Rightarrow> coords list list" where
  "splitByDatelineAndHops pts cutoffTs maxHopKm =
     (let filtered = filter (\<lambda>p. js_le cutoffTs (ts p)) pts
      in if length filtered < 2 then []
         else
           (case filtered of
              [] \<Rightarrow> []
            | f0 # rest \<Rightarrow>
                (case segLoop maxHopKm f0 rest ([], [(lat f0, lon f0)]) of
                   (segs, cur) \<Rightarrow> if length cur \<ge> 2 then segs @ [cur] else segs)))"

section \<open>Notions used in the statements\<close>

text \<open>
  For an observation \<open>p\<close> and a track: the distance and the time delta the loop computes
  for them, and whether the loop reaches its comparison with \<open>bestKm\<close> (no \<open>continue\<close> is
  taken).
\<close>

definition link_km :: "obs \<Rightarrow> track \<Rightarrow> jsnum" where
  "link_km p tr = haversineKm (last (points tr)) p"

definition link_dt :: "obs \<Rightarrow> track \<Rightarrow> jsnum" where
  "link_dt p tr = js_sub (ts p) (ts (last (points tr)))"

definition not_skipped :: "obs \<Rightarrow> string set \<Rightarrow> track \<Rightarrow> bool" where
  "not_skipped p usedTrack tr =
     (tid tr \<notin> usedTrack \<and> \<not> js_lt (link_dt p tr) (Fin 1800) \<and> \<not> js_gt (link_dt p tr) (Fin 5400)
      \<and> \<not> js_gt (link_km p tr) (js_mulc 200 (js_divc (link_dt p tr) 3600)))"

text \<open>What holds of two consecutive points of a track, and of every track while the hours
  are linked.\<close>

definition step_ok :: "trackpoint \<Rightarrow> trackpoint \<Rightarrow> bool" where
  "step_ok a b = (\<not> js_lt (js_sub (ts b) (ts a)) (Fin 1800) \<and> \<not> js_gt (js_sub (ts b) (ts a)) (Fin 5400))"

definition track_inv :: "track \<Rightarrow> bool" where
  "track_inv tr = (points tr \<noteq> [] \<and> successively step_ok (points tr)
                   \<and> (\<forall>q \<in> set (points tr). ts q \<noteq> NaN \<and> pid q = tid tr))"

text \<open>
  The two gates in the words of the specification, for finite values: the time delta lies
  in \<open>[1800, 5400]\<close> and the distance is at most 200 km an hour times the hours elapsed.
\<close>

definition gate_ok :: "obs \<Rightarrow> 'a obs_scheme \<Rightarrow> bool" where
  "gate_ok p l =
     (case (ts p, ts l, haversineKm l p) of
        (Fin tp, Fin tl0, Fin km) \<Rightarrow> 1800 \<le> tp - tl0 \<and> tp - tl0 \<le> 5400 \<and> km \<le> 200 * ((tp - tl0) / 3600)
      | _ \<Rightarrow> False)"

text \<open>
  An object on the equator that moves east at 50 km an hour (a degree of longitude is
  \<open>6371 * pi / 180\<close> km there), and an object that stays where it is; \<open>k\<close> counts the hours
  since \<open>t0\<close>.
\<close>

definition eastward :: "real \<Rightarrow> real \<Rightarrow> nat \<Rightarrow> obs" where
  "eastward t0 lon0 k =
     \<lparr>lat = Fin 0, lon = Fin (lon0 + real k * (9000 / (6371 * pi))), ts = Fin (t0 + 3600 * real k),
      alt = None\<rparr>"

definition parked :: "real \<Rightarrow> real \<Rightarrow> real \<Rightarrow> nat \<Rightarrow> obs" where
  "parked t0 la lo k = \<lparr>lat = Fin la, lon = Fin lo, ts = Fin (t0 + 3600 * real k), alt = None\<rparr>"










text \<open>The segmenter in the words of the specification: the break between two consecutive
  points, the maximal runs without a break, and the runs of at least two points.\<close>

definition breaks_between :: "jsnum \<Rightarrow> obs \<Rightarrow> obs \<Rightarrow> bool" where
  "breaks_between maxHopKm a b =
     (js_gt (Math_abs (js_sub (lon b) (lon a))) (Fin 180) \<or> js_gt (haversineKm a b) maxHopKm)"

fun runs :: "('a \<Rightarrow> 'a \<Rightarrow> bool) \<Rightarrow> 'a list \<Rightarrow> 'a list list" where
  "runs brk [] = []"
| "runs brk [x] = [[x]]"
| "runs brk (x # y # zs) =
     (if brk x y then [x] # runs brk (y # zs)
      else (case runs brk (y # zs) of [] \<Rightarrow> [[x]] | r # rs \<Rightarrow> (x # r) # rs))"

text \<open>The pair \<open>[lat, lon]\<close> of a point.\<close>

definition coord :: "obs \<Rightarrow> coords" where
  "coord p = (lat p, lon p)"

definition segments_spec :: "obs list \<Rightarrow> jsnum \<Rightarrow> jsnum \<Rightarrow> coords list list" where
  "segments_spec pts cutoffTs maxHopKm =
     map (map coord)
       (filter (\<lambda>r. 2 \<le> length r)
          (runs (breaks_between maxHopKm) (filter (\<lambda>p. js_le cutoffTs (ts p)) pts)))"

text \<open>A point on the equator.\<close>

definition eq_pt :: "real \<Rightarrow> real \<Rightarrow> obs" where
  "eq_pt lo t = \<lparr>lat = Fin 0, lon = Fin lo, ts = Fin t, alt = None\<rparr>"

text \<open>A record with latitude 1 and longitude 2, and one that carries a timestamp.\<close>

definition rec12 :: json where
  "rec12 = JObj [(jstr ''lat'', JNum (Fin 1)), (jstr ''lon'', JNum (Fin 2))]"

definition rec12_at :: "real \<Rightarrow> json" where
  "rec12_at x = JObj [(jstr ''lat'', JNum (Fin 1)), (jstr ''lon'', JNum (Fin 2)), (jstr ''ts'', JNum (Fin x))]"

text \<open>Whether an element of a payload of case B yields no observation: a coordinate is
  missing, or is not a finite number.\<close>

definition invalid_record :: "platform \<Rightarrow> json \<Rightarrow> bool" where
  "invalid_record pf obj =
     (let la = firstOf obj [''lat'', ''latitude'', ''y'', ''Lat'', ''Y''];
          lo = firstOf obj [''lon'', ''lng'', ''longitude'', ''x'', ''Lon'', ''X'']
      in nullish la \<or> nullish lo \<or> \<not> isFinite (Number_js pf la) \<or> \<not> isFinite (Number_js pf lo))"

text \<open>What one element of a payload of case B yields (nothing where it throws).\<close>

definition obsOfRecord :: "platform \<Rightarrow> jsnum \<Rightarrow> json \<Rightarrow> obs list" where
  "obsOfRecord pf t obj = (case recordB pf t obj of Inl e \<Rightarrow> [] | Inr os \<Rightarrow> os)"

text \<open>A platform for the examples: \<open>JSON.parse\<close> is the table of the texts it is asked;
  no example holds a string, an array or an object where a number is read.\<close>

definition table_platform :: "(jstring \<times> json) list \<Rightarrow> platform" where
  "table_platform tab = \<lparr>JSON_parse = map_of tab, Number_of = (\<lambda>v. NaN), Date_parse = (\<lambda>s. NaN)\<rparr>"

text \<open>A parsed value without \<open>NaN\<close> (\<open>JSON.parse\<close> gives no other), and the platforms
  whose \<open>JSON.parse\<close> keeps to that.\<close>

fun nan_free :: "json \<Rightarrow> bool" where
  "nan_free (JNum x) = (x \<noteq> NaN)"
| "nan_free (JArr xs) = list_all nan_free xs"
| "nan_free (JObj kvs) = list_all (\<lambda>kv. nan_free (snd kv)) kvs"
| "nan_free v = True"

definition platform_ok :: "platform \<Rightarrow> bool" where
  "platform_ok pf = (\<forall>s v. JSON_parse pf s = Some v \<longrightarrow> nan_free v)"

text \<open>An example feed: the hours 0 and 1 answer with the text \<open>[[1,2]]\<close>, the fetches of
  all other hours fail.\<close>

definition feed_text :: jstring where
  "feed_text = jstr ''[[1,2]]''"

definition feed_platform :: platform where
  "feed_platform = table_platform [(feed_text, JArr [JArr [JNum (Fin 1), JNum (Fin 2)]])]"

definition two_hours :: "nat \<Rightarrow> error + jstring" where
  "two_hours idx = (if idx < 2 then Inr feed_text else Inl FetchError)"

definition feed_track :: track where
  "feed_track =
     \<lparr>tid = ''T1'',
      points = [withId (mkObs (Fin 1699996400) (Fin 1) (Fin 2) None) ''T1'',
                withId (mkObs (Fin 1700000000) (Fin 1) (Fin 2) None) ''T1'']\<rparr>"

text \<open>Stage 3 in the words of the specification: every line that is not empty is parsed,
  what parses is collected, and the stage succeeds if the collection is not empty.\<close>

definition jsonl_spec :: "platform \<Rightarrow> jstring \<Rightarrow> json option" where
  "jsonl_spec pf cleaned =
     (let arr = parseLines pf (filter (\<lambda>l. l \<noteq> []) (splitLines cleaned))
      in if arr \<noteq> [] then Some (JArr arr) else None)"

text \<open>Stage 4, where stage 3 gave nothing.\<close>

definition stage4 :: "platform \<Rightarrow> jstring \<Rightarrow> json" where
  "stage4 pf cleaned =
     (case firstBlock cleaned of
        None \<Rightarrow> JNull
      | Some block \<Rightarrow> (case JSON_parse pf block of Some v \<Rightarrow> v | None \<Rightarrow> JNull))"

text \<open>Two texts of two lines, and the platforms that parse their lines.\<close>

definition rec34 :: json where
  "rec34 = JObj [(jstr ''lat'', JNum (Fin 3)), (jstr ''lon'', JNum (Fin 4))]"

definition two_objects :: jstring where
  \<open>two_objects = jstr ''{"lat":1,"lon":2}'' @ [10] @ jstr ''{"lat":3,"lon":4}''\<close>

definition objects_platform :: platform where
  \<open>objects_platform =
     table_platform [(jstr ''{"lat":1,"lon":2}'', rec12), (jstr ''{"lat":3,"lon":4}'', rec34)]\<close>

definition two_numbers :: jstring where
  "two_numbers = jstr ''1'' @ [10] @ jstr ''2''"

definition numbers_platform :: platform where
  "numbers_platform = table_platform [(jstr ''1'', JNum (Fin 1)), (jstr ''2'', JNum (Fin 2))]"

text \<open>Lines put together again with line feeds, and a text without the carriage returns
  that stand right before a line feed.\<close>

fun joinLF :: "jstring list \<Rightarrow> jstring" where
  "joinLF [] = []"
| "joinLF [l] = l"
| "joinLF (l # m # ls) = l @ 10 # joinLF (m # ls)"

fun dropCRLF :: "jstring \<Rightarrow> jstring" where
  "dropCRLF [] = []"
| "dropCRLF (c # cs) =
     (if c = 13 \<and> (case cs of [] \<Rightarrow> False | d # ds \<Rightarrow> d = 10) then dropCRLF cs else c # dropCRLF cs)"

text \<open>The payload \<open>{"lat": 0, "lon": lo, "ts": 1e999}\<close> as \<open>JSON.parse\<close> gives it (the number
  \<open>1e999\<close> is beyond the doubles and reads as \<open>Infinity\<close>), and the observation it
  yields.\<close>

definition far_payload :: "real \<Rightarrow> json" where
  "far_payload lo = JObj [(jstr ''lat'', JNum (Fin 0)), (jstr ''lon'', JNum (Fin lo)), (jstr ''ts'', JNum PInf)]"

definition inf_obs :: "real \<Rightarrow> obs" where
  "inf_obs lo = mkObs PInf (Fin 0) (Fin lo) None"


section \<open>The distance\<close>

lemma hav_x_equator: "hav_x 0 x 0 y = (sin ((y - x) * pi / 360))\<^sup>2"
  by (simp add: hav_x_def)

lemma arcsin_abs_sin:
  assumes "\<bar>u\<bar> \<le> pi / 2"
  shows "arcsin (sqrt ((sin u)\<^sup>2)) = \<bar>u\<bar>"
proof -
  have "sqrt ((sin u)\<^sup>2) = \<bar>sin u\<bar>" by simp
  also have "\<bar>sin u\<bar> = sin \<bar>u\<bar>"
  proof (cases "0 \<le> u")
    case True
    then have "0 \<le> sin u" using assms by (intro sin_ge_zero) (auto intro: order_trans)
    then show ?thesis using True by simp
  next
    case False
    then have "0 \<le> sin (- u)" using assms by (intro sin_ge_zero) auto
    then show ?thesis using False by simp
  qed
  finally have "arcsin (sqrt ((sin u)\<^sup>2)) = arcsin (sin \<bar>u\<bar>)" by simp
  also have "\<dots> = \<bar>u\<bar>" using assms by (intro arcsin_sin) auto
  finally show ?thesis .
qed

lemma haversineKm_equator:
  assumes "lat a = Fin 0" "lat b = Fin 0" "lon a = Fin x" "lon b = Fin y" "\<bar>y - x\<bar> \<le> 180"
  shows "haversineKm a b = Fin (6371 * \<bar>y - x\<bar> * pi / 180)"
proof -
  have u: "\<bar>(y - x) * pi / 360\<bar> \<le> pi / 2"
  proof -
    have "\<bar>(y - x) * pi / 360\<bar> = \<bar>y - x\<bar> * pi / 360" by (simp add: abs_mult)
    also have "\<dots> \<le> 180 * pi / 360" using assms(5) by (intro divide_right_mono mult_right_mono) auto
    finally show ?thesis by simp
  qed
  have "arcsin (sqrt (hav_x 0 x 0 y)) = \<bar>(y - x) * pi / 360\<bar>"
    unfolding hav_x_equator by (rule arcsin_abs_sin [OF u])
  moreover have "0 \<le> hav_x 0 x 0 y" unfolding hav_x_equator by simp
  ultimately show ?thesis
    using assms(1-4) by (simp add: haversineKm_def Let_def abs_mult not_less [symmetric] mult.commute)
qed

lemma haversineKm_same:
  assumes "lat a = Fin x" "lon a = Fin y" "lat b = Fin x" "lon b = Fin y"
  shows "haversineKm a b = Fin 0"
  using assms by (simp add: haversineKm_def hav_x_def)


section \<open>The loop over the tracks\<close>

lemma js_lt_trans: "js_lt a b \<Longrightarrow> js_lt b c \<Longrightarrow> js_lt a c"
  by (cases a; cases b; cases c) auto

lemma js_lt_irrefl: "\<not> js_lt a a"
  by (cases a) auto

lemma scanTracks_step:
  "points tr \<noteq> [] \<Longrightarrow>
   scanTracks p usedTrack (tr # trs) t (bi, bk) =
     scanTracks p usedTrack trs (Suc t)
       (if not_skipped p usedTrack tr \<and> js_lt (link_km p tr) bk then (Some t, link_km p tr) else (bi, bk))"
  by (simp add: not_skipped_def link_km_def link_dt_def Let_def)

declare scanTracks.simps(2) [simp del]

lemma scanTracks_total:
  "\<forall>tr \<in> set trs. points tr \<noteq> [] \<Longrightarrow> \<exists>r. scanTracks p usedTrack trs t b = Inr r"
proof (induction trs arbitrary: t b)
  case Nil
  then show ?case by simp
next
  case (Cons tr trs)
  obtain bi bk where b: "b = (bi, bk)" by (cases b)
  from Cons.prems have ne: "points tr \<noteq> []" and rest: "\<forall>tr \<in> set trs. points tr \<noteq> []" by auto
  show ?case unfolding b scanTracks_step [OF ne] by (rule Cons.IH [OF rest])
qed

lemma scanTracks_result:
  assumes "\<forall>tr \<in> set trs. points tr \<noteq> []"
    and "scanTracks p usedTrack trs t (bi, bk) = Inr (ri, rk)"
    and "bk \<noteq> NaN"
  shows "((ri, rk) = (bi, bk) \<or>
          (\<exists>j < length trs. ri = Some (t + j) \<and> not_skipped p usedTrack (trs ! j)
             \<and> rk = link_km p (trs ! j) \<and> js_lt rk bk))
         \<and> (\<forall>j < length trs. not_skipped p usedTrack (trs ! j) \<longrightarrow> \<not> js_lt (link_km p (trs ! j)) rk)
         \<and> \<not> js_lt bk rk"
  using assms
proof (induction trs arbitrary: t bi bk)
  case Nil
  then show ?case by (simp add: js_lt_irrefl)
next
  case (Cons tr trs)
  from Cons.prems(1) have ne: "points tr \<noteq> []" and rest: "\<forall>tr \<in> set trs. points tr \<noteq> []" by auto
  let ?upd = "not_skipped p usedTrack tr \<and> js_lt (link_km p tr) bk"
  show ?case
  proof (cases ?upd)
    case True
    with Cons.prems(2) have run: "scanTracks p usedTrack trs (Suc t) (Some t, link_km p tr) = Inr (ri, rk)"
      by (simp add: scanTracks_step [OF ne])
    from True have "link_km p tr \<noteq> NaN" by (cases "link_km p tr") auto
    note ih = Cons.IH [OF rest run this]
    from ih have nlt: "\<not> js_lt (link_km p tr) rk" by simp
    have lt: "js_lt rk bk"
    proof -
      from ih have "(ri, rk) = (Some t, link_km p tr) \<or> js_lt rk (link_km p tr)" by blast
      then show ?thesis using True by (auto intro: js_lt_trans)
    qed
    have sel: "\<exists>j < length (tr # trs). ri = Some (t + j) \<and> not_skipped p usedTrack ((tr # trs) ! j)
                 \<and> rk = link_km p ((tr # trs) ! j) \<and> js_lt rk bk"
    proof -
      from ih consider "(ri, rk) = (Some t, link_km p tr)"
        | j where "j < length trs" "ri = Some (Suc t + j)" "not_skipped p usedTrack (trs ! j)"
            "rk = link_km p (trs ! j)"
        by blast
      then show ?thesis
      proof cases
        case 1
        then show ?thesis using True lt by (intro exI [of _ 0]) simp
      next
        case 2
        then show ?thesis using lt by (intro exI [of _ "Suc j"]) simp
      qed
    qed
    have mn: "\<forall>j < length (tr # trs). not_skipped p usedTrack ((tr # trs) ! j)
                \<longrightarrow> \<not> js_lt (link_km p ((tr # trs) ! j)) rk"
    proof (intro allI impI)
      fix j assume "j < length (tr # trs)" "not_skipped p usedTrack ((tr # trs) ! j)"
      then show "\<not> js_lt (link_km p ((tr # trs) ! j)) rk"
        using ih nlt by (cases j) auto
    qed
    have "\<not> js_lt bk rk" using lt js_lt_trans js_lt_irrefl by blast
    with sel mn show ?thesis by blast
  next
    case False
    with Cons.prems(2) have run: "scanTracks p usedTrack trs (Suc t) (bi, bk) = Inr (ri, rk)"
      by (simp add: scanTracks_step [OF ne])
    note ih = Cons.IH [OF rest run Cons.prems(3)]
    have sel: "(ri, rk) = (bi, bk) \<or> (\<exists>j < length (tr # trs). ri = Some (t + j) \<and> not_skipped p usedTrack ((tr # trs) ! j)
                 \<and> rk = link_km p ((tr # trs) ! j) \<and> js_lt rk bk)"
    proof -
      from ih consider "(ri, rk) = (bi, bk)"
        | j where "j < length trs" "ri = Some (Suc t + j)" "not_skipped p usedTrack (trs ! j)"
            "rk = link_km p (trs ! j)" "js_lt rk bk"
        by blast
      then show ?thesis
      proof cases
        case 1
        then show ?thesis by simp
      next
        case 2
        then show ?thesis by (intro disjI2 exI [of _ "Suc j"]) simp
      qed
    qed
    have mn: "\<forall>j < length (tr # trs). not_skipped p usedTrack ((tr # trs) ! j)
                \<longrightarrow> \<not> js_lt (link_km p ((tr # trs) ! j)) rk"
    proof (intro allI impI)
      fix j assume j: "j < length (tr # trs)" "not_skipped p usedTrack ((tr # trs) ! j)"
      show "\<not> js_lt (link_km p ((tr # trs) ! j)) rk"
      proof (cases j)
        case 0
        with j False have "\<not> js_lt (link_km p tr) bk" by simp
        moreover from ih have "\<not> js_lt bk rk" by simp
        ultimately show ?thesis using 0 Cons.prems(3)
          by (cases "link_km p tr"; cases bk; cases rk) auto
      next
        case (Suc k)
        then show ?thesis using ih j by auto
      qed
    qed
    from ih have "\<not> js_lt bk rk" by simp
    with sel mn show ?thesis by blast
  qed
qed

section \<open>What the linker keeps true of every track\<close>

lemma ts_withId [simp]: "ts (withId p i) = ts p" "lat (withId p i) = lat p" "lon (withId p i) = lon p"
  "pid (withId p i) = i" "alt (withId p i) = alt p"
  by (simp_all add: withId_def)

lemma track_inv_newTrack: "ts p \<noteq> NaN \<Longrightarrow> track_inv (newTrack n p)"
  by (simp add: track_inv_def newTrack_def)

lemma startTracks_inv:
  "\<forall>tr \<in> set (fst st). track_inv tr \<Longrightarrow> \<forall>p \<in> set ps. ts p \<noteq> NaN \<Longrightarrow>
   \<forall>tr \<in> set (fst (startTracks ps i used st)). track_inv tr"
proof (induction ps i used st rule: startTracks.induct)
  case (1 i usedPoint st)
  then show ?case by simp
next
  case (2 p ps i usedPoint tracks nextId)
  then show ?case by (auto simp: track_inv_newTrack)
qed

lemma track_inv_push:
  assumes "track_inv tr" "ts p \<noteq> NaN" "not_skipped p used tr"
  shows "track_inv (tr\<lparr>points := points tr @ [withId p (tid tr)]\<rparr>)"
  using assms
  by (auto simp: track_inv_def successively_append_iff step_ok_def not_skipped_def link_dt_def)

lemma scanTracks_Some:
  assumes "\<forall>tr \<in> set trs. points tr \<noteq> []"
    and "scanTracks p usedTrack trs 0 (None, PInf) = Inr (Some b, rk)"
  shows "b < length trs \<and> not_skipped p usedTrack (trs ! b) \<and> rk = link_km p (trs ! b)"
  using scanTracks_result [OF assms] by auto

lemma linkPoints_inv:
  assumes "\<forall>tr \<in> set tracks. track_inv tr" "\<forall>p \<in> set ps. ts p \<noteq> NaN"
  shows "\<exists>tracks' ut up. linkPoints ps i (tracks, usedTrack, usedPoint) = Inr (tracks', ut, up)
           \<and> (\<forall>tr \<in> set tracks'. track_inv tr)"
  using assms
proof (induction ps arbitrary: i tracks usedTrack usedPoint)
  case Nil
  then show ?case by simp
next
  case (Cons p ps)
  from Cons.prems(1) have ne: "\<forall>tr \<in> set tracks. points tr \<noteq> []" by (simp add: track_inv_def)
  from Cons.prems(2) have p: "ts p \<noteq> NaN" and ps: "\<forall>p \<in> set ps. ts p \<noteq> NaN" by auto
  obtain ri rk where r: "scanTracks p usedTrack tracks 0 (None, PInf) = Inr (ri, rk)"
    using scanTracks_total [OF ne, of p usedTrack 0 "(None, PInf)"] by auto
  show ?case
  proof (cases ri)
    case None
    with r show ?thesis using Cons.IH [OF Cons.prems(1) ps] by simp
  next
    case (Some b)
    with r scanTracks_Some [OF ne] have b: "b < length tracks" "not_skipped p usedTrack (tracks ! b)"
      by auto
    let ?tr = "tracks ! b"
    let ?tracks = "tracks[b := ?tr\<lparr>points := points ?tr @ [withId p (tid ?tr)]\<rparr>]"
    have "track_inv (?tr\<lparr>points := points ?tr @ [withId p (tid ?tr)]\<rparr>)"
      using Cons.prems(1) b p by (intro track_inv_push) auto
    then have "\<forall>tr \<in> set ?tracks. track_inv tr"
      using Cons.prems(1) by (auto dest!: set_update_subset_insert [THEN subsetD])
    from Cons.IH [OF this ps] show ?thesis using r Some by (simp add: Let_def)
  qed
qed

lemma linkHour_inv:
  assumes "\<forall>tr \<in> set (fst st). track_inv tr" "\<forall>p \<in> set pts. ts p \<noteq> NaN"
  shows "\<exists>st'. linkHour pts st = Inr st' \<and> (\<forall>tr \<in> set (fst st'). track_inv tr)"
proof -
  consider "pts = []" | "pts \<noteq> []" "fst st = []" | "pts \<noteq> []" "fst st \<noteq> []" by blast
  then show ?thesis
  proof cases
    case 1
    then show ?thesis using assms by (simp add: linkHour_def)
  next
    case 2
    then show ?thesis using startTracks_inv [OF assms, of 0 "{}"] by (simp add: linkHour_def)
  next
    case 3
    obtain tracks' ut up where l: "linkPoints pts 0 (fst st, {}, {}) = Inr (tracks', ut, up)"
      and inv: "\<forall>tr \<in> set tracks'. track_inv tr"
      using linkPoints_inv [OF assms, of 0 "{}" "{}"] by blast
    have "\<forall>tr \<in> set (fst (startTracks pts 0 up (tracks', snd st))). track_inv tr"
      using inv assms(2) by (intro startTracks_inv) auto
    then show ?thesis using 3 l by (simp add: linkHour_def)
  qed
qed

lemma linkHours_inv:
  assumes "\<forall>tr \<in> set (fst st). track_inv tr" "\<forall>pts \<in> set hs. \<forall>p \<in> set pts. ts p \<noteq> NaN"
  shows "\<exists>st'. linkHours hs st = Inr st' \<and> (\<forall>tr \<in> set (fst st'). track_inv tr)"
  using assms
proof (induction hs arbitrary: st)
  case Nil
  then show ?case by simp
next
  case (Cons pts hs)
  from Cons.prems(2) have a: "\<forall>p \<in> set pts. ts p \<noteq> NaN" and b: "\<forall>pts \<in> set hs. \<forall>p \<in> set pts. ts p \<noteq> NaN"
    by auto
  obtain st1 where s: "linkHour pts st = Inr st1" and i: "\<forall>tr \<in> set (fst st1). track_inv tr"
    using linkHour_inv [OF Cons.prems(1) a] by blast
  from Cons.IH [OF i b] show ?case using s by simp
qed

section \<open>dedupeAndSort\<close>

lemma step_ok_cases:
  assumes "step_ok a b" "ts a \<noteq> NaN" "ts b \<noteq> NaN"
  shows "(isFinite (ts a) \<and> isFinite (ts b) \<and> js_lt (ts a) (ts b)) \<or> (\<not> isFinite (ts a) \<and> \<not> isFinite (ts b))"
  using assms by (cases "ts a"; cases "ts b") (auto simp: step_ok_def js_gt_def)

lemma chain_dichotomy:
  assumes "successively step_ok ps" "\<forall>q \<in> set ps. ts q \<noteq> NaN"
  shows "((\<forall>q \<in> set ps. isFinite (ts q)) \<and> sorted_wrt (\<lambda>a b. js_lt (ts a) (ts b)) ps)
         \<or> (\<forall>q \<in> set ps. \<not> isFinite (ts q))"
  using assms
proof (induction ps rule: induct_list012)
  case 1
  then show ?case by simp
next
  case (2 x)
  then show ?case by simp
next
  case (3 x y zs)
  from "3.prems" have xy: "step_ok x y" and rest: "successively step_ok (y # zs)"
    and nn: "ts x \<noteq> NaN" "ts y \<noteq> NaN" "\<forall>q \<in> set (y # zs). ts q \<noteq> NaN" by auto
  from "3.IH"(2) [OF rest nn(3)] step_ok_cases [OF xy nn(1,2)]
  consider "isFinite (ts x)" "js_lt (ts x) (ts y)" "\<forall>q \<in> set (y # zs). isFinite (ts q)"
      "sorted_wrt (\<lambda>a b. js_lt (ts a) (ts b)) (y # zs)"
    | "\<not> isFinite (ts x)" "\<forall>q \<in> set (y # zs). \<not> isFinite (ts q)"
    by auto
  then show ?case
  proof cases
    case 1
    then have "\<forall>q \<in> set (y # zs). js_lt (ts x) (ts q)"
      by (auto intro: js_lt_trans)
    with 1 show ?thesis by simp
  next
    case 2
    then show ?thesis by simp
  qed
qed

lemma set_dedupe: "set (dedupe ps seen) \<subseteq> set ps"
  by (induction ps seen rule: dedupe.induct) auto

lemma dedupe_finite:
  "q \<in> set (dedupe ps seen) \<Longrightarrow> isFinite (lat q) \<and> isFinite (lon q) \<and> isFinite (ts q)"
  by (induction ps seen rule: dedupe.induct) (auto split: if_splits)

lemma dedupe_keys: "q \<in> set (dedupe ps seen) \<Longrightarrow> key_of q \<notin> seen"
  by (induction ps seen rule: dedupe.induct) (auto split: if_splits)

lemma dedupe_distinct: "distinct (map key_of (dedupe ps seen))"
  by (induction ps seen rule: dedupe.induct) (auto dest: dedupe_keys)

lemma dedupe_sorted_wrt: "sorted_wrt R ps \<Longrightarrow> sorted_wrt R (dedupe ps seen)"
proof (induction ps seen rule: dedupe.induct)
  case (1 seen)
  then show ?case by simp
next
  case (2 p ps seen)
  from "2.prems" have a: "\<forall>q \<in> set ps. R p q" and b: "sorted_wrt R ps" by auto
  have "\<forall>q \<in> set (dedupe ps s). R p q" for s using a set_dedupe [of ps s] by blast
  then show ?case using "2.IH" b by simp
qed

lemma dedupe_nonfinite: "\<forall>q \<in> set ps. \<not> isFinite (ts q) \<Longrightarrow> dedupe ps seen = []"
  by (induction ps seen rule: dedupe.induct) auto

lemma dedupeAndSort_finite:
  "q \<in> set (dedupeAndSort ps) \<Longrightarrow> isFinite (lat q) \<and> isFinite (lon q) \<and> isFinite (ts q)"
  by (simp add: dedupeAndSort_def dedupe_finite)

lemma dedupeAndSort_distinct: "distinct (map key_of (dedupeAndSort ps))"
proof -
  have "mset (map key_of (dedupeAndSort ps)) = mset (map key_of (dedupe ps {}))"
    by (simp add: dedupeAndSort_def)
  then show ?thesis using dedupe_distinct [of ps "{}"] by (metis mset_eq_imp_distinct_iff)
qed

lemma js_lt_fin_val: "isFinite a \<Longrightarrow> isFinite b \<Longrightarrow> js_lt a b = (fin_val a < fin_val b)"
  by (cases a; cases b) auto

lemma dedupeAndSort_chain:
  assumes "successively step_ok ps" "\<forall>q \<in> set ps. ts q \<noteq> NaN"
  shows "sorted_wrt (\<lambda>a b. js_lt (ts a) (ts b)) (dedupeAndSort ps)"
proof -
  from chain_dichotomy [OF assms]
  have s: "sorted_wrt (\<lambda>a b. js_lt (ts a) (ts b)) (dedupe ps {})"
    by (auto simp: dedupe_nonfinite intro: dedupe_sorted_wrt)
  have "sorted_wrt (\<lambda>a b. fin_val (ts a) \<le> fin_val (ts b)) (dedupe ps {})"
  proof (rule sorted_wrt_mono_rel [OF _ s])
    fix a b assume "a \<in> set (dedupe ps {})" "b \<in> set (dedupe ps {})" "js_lt (ts a) (ts b)"
    then show "fin_val (ts a) \<le> fin_val (ts b)"
      using dedupe_finite js_lt_fin_val by fastforce
  qed
  then have "sorted (map (\<lambda>p. fin_val (ts p)) (dedupe ps {}))"
    by (simp add: sorted_wrt_map)
  then have "dedupeAndSort ps = dedupe ps {}"
    unfolding dedupeAndSort_def by (rule sort_key_id_if_sorted)
  with s show ?thesis by simp
qed

lemma linkTracks_invariants:
  assumes "\<forall>pts \<in> set hourly. \<forall>p \<in> set pts. ts p \<noteq> NaN"
  shows "\<exists>trs. linkTracks hourly = Inr trs \<and>
           (\<forall>tr \<in> set trs.
              sorted_wrt (\<lambda>a b. js_lt (ts a) (ts b)) (points tr)
              \<and> distinct (map key_of (points tr))
              \<and> (\<forall>q \<in> set (points tr). isFinite (lat q) \<and> isFinite (lon q) \<and> isFinite (ts q))
              \<and> 2 \<le> length (points tr))"
proof -
  have "\<forall>pts \<in> set (rev hourly). \<forall>p \<in> set pts. ts p \<noteq> NaN" using assms by simp
  from linkHours_inv [of "([], 1)", OF _ this]
  obtain tracks n where l: "linkHours (rev hourly) ([], 1) = Inr (tracks, n)"
    and inv: "\<forall>tr \<in> set tracks. track_inv tr" by auto
  let ?trs = "filter (\<lambda>t. length (points t) \<ge> 2) (map (\<lambda>tr. tr\<lparr>points := dedupeAndSort (points tr)\<rparr>) tracks)"
  have r: "linkTracks hourly = Inr ?trs" using l by (simp add: linkTracks_def)
  have "sorted_wrt (\<lambda>a b. js_lt (ts a) (ts b)) (points tr)
        \<and> distinct (map key_of (points tr))
        \<and> (\<forall>q \<in> set (points tr). isFinite (lat q) \<and> isFinite (lon q) \<and> isFinite (ts q))
        \<and> 2 \<le> length (points tr)" if "tr \<in> set ?trs" for tr
  proof -
    from that obtain tr0 where tr0: "tr0 \<in> set tracks" "tr = tr0\<lparr>points := dedupeAndSort (points tr0)\<rparr>"
      and len: "2 \<le> length (points tr)" by auto
    from inv tr0(1) have "successively step_ok (points tr0)" "\<forall>q \<in> set (points tr0). ts q \<noteq> NaN"
      by (auto simp: track_inv_def)
    from dedupeAndSort_chain [OF this] show ?thesis
      using tr0(2) len dedupeAndSort_distinct [of "points tr0"] dedupeAndSort_finite [of _ "points tr0"]
      by simp
  qed
  with r show ?thesis by blast
qed

section \<open>The choice of the linker\<close>



lemma js_lt_PInf: "js_lt a PInf = isFinite a \<or> a = NInf"
  by (cases a) auto





section \<open>One object, hour after hour\<close>

lemma haversineKm_withId [simp]:
  "haversineKm (withId a i) b = haversineKm a b" "haversineKm b (withId a i) = haversineKm b a"
  by (simp_all add: haversineKm_def)

lemma gate_ok_withId [simp]: "gate_ok p (withId a i) = gate_ok p a"
  by (simp add: gate_ok_def)

lemma gate_ok_D:
  assumes "gate_ok p l"
  shows "isFinite (ts p)" "isFinite (ts l)" "isFinite (lat p)" "isFinite (lon p)" "isFinite (lat l)" "isFinite (lon l)"
    "js_lt (ts l) (ts p)"
  using assms
  by (auto simp: gate_ok_def haversineKm_def split: jsnum.splits)

lemma gate_ok_not_skipped:
  assumes "gate_ok p (last (points tr))"
  shows "not_skipped p {} tr \<and> js_lt (link_km p tr) PInf"
  using assms
  by (auto simp: gate_ok_def not_skipped_def link_km_def link_dt_def js_gt_def split: jsnum.splits)

lemma linkHour_link:
  assumes "points tr \<noteq> []" "gate_ok p (last (points tr))"
  shows "linkHour [p] ([tr], n) = Inr ([tr\<lparr>points := points tr @ [withId p (tid tr)]\<rparr>], n)"
proof -
  have "scanTracks p {} [tr] 0 (None, PInf) = Inr (Some 0, link_km p tr)"
    using gate_ok_not_skipped [OF assms(2)] by (simp add: scanTracks_step [OF assms(1)])
  then show ?thesis by (simp add: linkHour_def Let_def)
qed

lemma linkHours_follow:
  assumes "points tr \<noteq> []" "os \<noteq> [] \<longrightarrow> gate_ok (hd os) (last (points tr))"
    "successively (\<lambda>a b. gate_ok b a) os"
  shows "linkHours (map (\<lambda>ob. [ob]) os) ([tr], n) =
           Inr ([tr\<lparr>points := points tr @ map (\<lambda>ob. withId ob (tid tr)) os\<rparr>], n)"
  using assms
proof (induction os arbitrary: tr)
  case Nil
  then show ?case by simp
next
  case (Cons p os)
  let ?tr = "tr\<lparr>points := points tr @ [withId p (tid tr)]\<rparr>"
  from Cons.prems have g: "gate_ok p (last (points tr))" by simp
  have a: "points ?tr \<noteq> []" by simp
  have b: "os \<noteq> [] \<longrightarrow> gate_ok (hd os) (last (points ?tr))"
    using Cons.prems(3) by (cases os) auto
  have c: "successively (\<lambda>a b. gate_ok b a) os"
    using Cons.prems(3) by (cases os) auto
  show ?case
    using Cons.IH [OF a b c] linkHour_link [OF Cons.prems(1) g, of n] by simp
qed

lemma linkHours_single_object:
  assumes "successively (\<lambda>a b. gate_ok b a) (p # os)"
  shows "linkHours (map (\<lambda>ob. [ob]) (p # os)) ([], n) =
           Inr ([\<lparr>tid = mkId n, points = map (\<lambda>ob. withId ob (mkId n)) (p # os)\<rparr>], Suc n)"
proof -
  have s: "linkHour [p] ([], n) = Inr ([newTrack n p], Suc n)" by (simp add: linkHour_def)
  have a: "points (newTrack n p) \<noteq> []" by (simp add: newTrack_def)
  have b: "os \<noteq> [] \<longrightarrow> gate_ok (hd os) (last (points (newTrack n p)))"
    using assms by (cases os) (auto simp: newTrack_def)
  have c: "successively (\<lambda>a b. gate_ok b a) os" using assms by (cases os) auto
  show ?thesis using linkHours_follow [OF a b c, of "Suc n"] s by (simp add: newTrack_def)
qed

lemma dedupe_id:
  assumes "sorted_wrt (\<lambda>a b. js_lt (ts a) (ts b)) ps"
    "\<forall>q \<in> set ps. isFinite (lat q) \<and> isFinite (lon q) \<and> isFinite (ts q)"
    "\<forall>q \<in> set ps. key_of q \<notin> seen"
  shows "dedupe ps seen = ps"
  using assms
proof (induction ps arbitrary: seen)
  case Nil
  then show ?case by simp
next
  case (Cons p ps)
  have "key_of q \<noteq> key_of p" if "q \<in> set ps" for q
  proof -
    from Cons.prems(1) that have "js_lt (ts p) (ts q)" by simp
    then have "ts p \<noteq> ts q" using js_lt_irrefl by auto
    then show ?thesis by (auto simp: key_of_def)
  qed
  then have "\<forall>q \<in> set ps. key_of q \<notin> insert (key_of p) seen" using Cons.prems(3) by auto
  from Cons.IH [OF _ _ this] Cons.prems show ?case by simp
qed

lemma dedupeAndSort_id:
  assumes "sorted_wrt (\<lambda>a b. js_lt (ts a) (ts b)) ps"
    "\<forall>q \<in> set ps. isFinite (lat q) \<and> isFinite (lon q) \<and> isFinite (ts q)"
  shows "dedupeAndSort ps = ps"
proof -
  have d: "dedupe ps {} = ps" using assms by (intro dedupe_id) auto
  have "sorted_wrt (\<lambda>a b. fin_val (ts a) \<le> fin_val (ts b)) ps"
  proof (rule sorted_wrt_mono_rel [OF _ assms(1)])
    fix a b assume "a \<in> set ps" "b \<in> set ps" "js_lt (ts a) (ts b)"
    then show "fin_val (ts a) \<le> fin_val (ts b)"
      using assms(2) js_lt_fin_val by fastforce
  qed
  then have "sorted (map (\<lambda>p. fin_val (ts p)) ps)" by (simp add: sorted_wrt_map)
  then show ?thesis unfolding dedupeAndSort_def d by (rule sort_key_id_if_sorted)
qed

lemma transp_ts_lt: "transp (\<lambda>a b. js_lt (ts a) (ts b))"
  by (auto simp: transp_def intro: js_lt_trans)

lemma chain_sorted:
  assumes "successively (\<lambda>a b. gate_ok b a) os"
  shows "sorted_wrt (\<lambda>a b. js_lt (ts a) (ts b)) os"
proof -
  have "successively (\<lambda>a b. js_lt (ts a) (ts b)) os"
    by (rule successively_mono [OF assms]) (auto dest: gate_ok_D)
  then show ?thesis by (simp add: successively_conv_sorted_wrt [OF transp_ts_lt])
qed

lemma chain_finite:
  assumes "successively (\<lambda>a b. gate_ok b a) os" "2 \<le> length os" "q \<in> set os"
  shows "isFinite (lat q) \<and> isFinite (lon q) \<and> isFinite (ts q)"
  using assms
proof (induction os rule: induct_list012)
  case 1
  then show ?case by simp
next
  case (2 x)
  then show ?case by simp
next
  case (3 x y zs)
  from "3.prems"(1) have g: "gate_ok y x" and rest: "successively (\<lambda>a b. gate_ok b a) (y # zs)" by auto
  show ?case
  proof (cases "q = x \<or> q = y")
    case True
    then show ?thesis using gate_ok_D [OF g] by auto
  next
    case False
    with "3.prems"(3) have "q \<in> set zs" by auto
    then have "2 \<le> length (y # zs)" "q \<in> set (y # zs)" by (cases zs; auto)+
    from "3.IH"(2) [OF rest this] show ?thesis .
  qed
qed

lemma linkTracks_single_object:
  assumes "successively (\<lambda>a b. gate_ok b a) os" "2 \<le> length os"
  shows "linkTracks (rev (map (\<lambda>ob. [ob]) os)) = Inr [\<lparr>tid = mkId 1, points = map (\<lambda>ob. withId ob (mkId 1)) os\<rparr>]"
proof -
  from assms(2) obtain p os' where os: "os = p # os'" by (cases os) auto
  let ?ps = "map (\<lambda>ob. withId ob (mkId 1)) os"
  have l: "linkHours (map (\<lambda>ob. [ob]) os) ([], 1) = Inr ([\<lparr>tid = mkId 1, points = ?ps\<rparr>], 2)"
    using linkHours_single_object [of p os' 1] assms(1) unfolding os by simp
  have "sorted_wrt (\<lambda>a b. js_lt (ts a) (ts b)) ?ps"
    using chain_sorted [OF assms(1)] by (simp add: sorted_wrt_map)
  moreover have "\<forall>q \<in> set ?ps. isFinite (lat q) \<and> isFinite (lon q) \<and> isFinite (ts q)"
    using chain_finite [OF assms] by auto
  ultimately have "dedupeAndSort ?ps = ?ps" by (rule dedupeAndSort_id)
  then show ?thesis using l assms(2) by (simp add: linkTracks_def)
qed

lemma eastward_km: "haversineKm (eastward t0 lon0 k) (eastward t0 lon0 (Suc k)) = Fin 50"
proof -
  let ?d = "9000 / (6371 * pi)"
  have d: "(lon0 + real (Suc k) * ?d) - (lon0 + real k * ?d) = ?d" by (simp add: field_simps)
  have "?d \<le> 9000 / (6371 * 2)" using pi_ge_two by (intro divide_left_mono) auto
  then have le: "\<bar>?d\<bar> \<le> 180" by simp
  have "haversineKm (eastward t0 lon0 k) (eastward t0 lon0 (Suc k))
          = Fin (6371 * \<bar>(lon0 + real (Suc k) * ?d) - (lon0 + real k * ?d)\<bar> * pi / 180)"
    by (rule haversineKm_equator) (simp_all only: eastward_def latlon.simps d le)
  also have "\<dots> = Fin 50" unfolding d by simp
  finally show ?thesis .
qed

lemma eastward_gate: "gate_ok (eastward t0 lon0 (Suc k)) (eastward t0 lon0 k)"
proof -
  have "ts (eastward t0 lon0 (Suc k)) = Fin (t0 + 3600 * real (Suc k))"
    "ts (eastward t0 lon0 k) = Fin (t0 + 3600 * real k)"
    by (simp_all add: eastward_def)
  then show ?thesis by (simp add: gate_ok_def eastward_km algebra_simps)
qed

lemma mkId_1: "mkId (Suc 0) = ''T1''"
  by (simp add: mkId_def dec.simps)

lemma eastward_five:
  "linkTracks [[eastward t0 lon0 4], [eastward t0 lon0 3], [eastward t0 lon0 2],
               [eastward t0 lon0 1], [eastward t0 lon0 0]]
     = Inr [\<lparr>tid = ''T1'', points = map (\<lambda>k. withId (eastward t0 lon0 k) ''T1'') [0, 1, 2, 3, 4]\<rparr>]"
proof -
  let ?os = "map (eastward t0 lon0) [0, 1, 2, 3, 4]"
  have g: "gate_ok (eastward t0 lon0 1) (eastward t0 lon0 0)"
    "gate_ok (eastward t0 lon0 2) (eastward t0 lon0 1)"
    "gate_ok (eastward t0 lon0 3) (eastward t0 lon0 2)"
    "gate_ok (eastward t0 lon0 4) (eastward t0 lon0 3)"
    using eastward_gate [of t0 lon0 0] eastward_gate [of t0 lon0 1] eastward_gate [of t0 lon0 2]
      eastward_gate [of t0 lon0 3]
    by (simp_all add: numeral_eq_Suc)
  then have "successively (\<lambda>a b. gate_ok b a) ?os" by simp
  from linkTracks_single_object [OF this] show ?thesis by (simp add: mkId_1)
qed






lemma parked_fields [simp]:
  "ts (parked t0 la lo k) = Fin (t0 + 3600 * real k)" "lat (parked t0 la lo k) = Fin la"
  "lon (parked t0 la lo k) = Fin lo"
  by (simp_all add: parked_def)



lemma linkHour_empty: "linkHour [] st = Inr st"
  by (simp add: linkHour_def)


section \<open>The linker: gates, choice and gaps\<close>

lemma linkPoints_Cons:
  "linkPoints (p # ps) i st =
     (case linkPoints [p] i st of Inl e \<Rightarrow> Inl e | Inr st' \<Rightarrow> linkPoints ps (Suc i) st')"
proof -
  obtain tracks usedTrack usedPoint where st: "st = (tracks, usedTrack, usedPoint)" by (cases st)
  show ?thesis unfolding st
    by (cases "scanTracks p usedTrack tracks 0 (None, PInf)")
      (auto simp: Let_def split: option.splits prod.splits)
qed

section \<open>The proximity scan\<close>















lemma length_insertStat: "length (insertStat a bs) = Suc (length bs)"
  by (induction bs) auto

lemma length_stats: "length (stats tracks evs) = length tracks"
  by (induction tracks) (auto simp: stats_def sortStats_def length_insertStat)




section \<open>The proximity stat\<close>




section \<open>The render segmenter\<close>

lemma runs_nonempty: "runs brk (x # xs) \<noteq> []"
  by (induction xs arbitrary: x) (auto split: list.splits)

lemma segLoop_step:
  "segLoop maxHopKm a (b # rest) (segs, cur) =
     (if breaks_between maxHopKm a b
      then segLoop maxHopKm b rest (if 2 \<le> length cur then segs @ [cur] else segs, [coord b])
      else segLoop maxHopKm b rest (segs, cur @ [coord b]))"
  by (simp add: breaks_between_def coord_def Let_def)

lemma segLoop_runs:
  "(case segLoop maxHopKm a rest (segs, c0 @ [coord a]) of
      (segs', cur') \<Rightarrow> if 2 \<le> length cur' then segs' @ [cur'] else segs')
   = segs @ filter (\<lambda>r. 2 \<le> length r)
       (case runs (breaks_between maxHopKm) (a # rest) of
          [] \<Rightarrow> []
        | r # rs \<Rightarrow> (c0 @ map coord r) # map (map coord) rs)"
proof (induction rest arbitrary: a segs c0)
  case Nil
  then show ?case by simp
next
  case (Cons b rest)
  obtain r rs where r: "runs (breaks_between maxHopKm) (b # rest) = r # rs"
    using runs_nonempty [of "breaks_between maxHopKm" b rest] by (cases "runs (breaks_between maxHopKm) (b # rest)") auto
  show ?case
  proof (cases "breaks_between maxHopKm a b")
    case True
    have "segLoop maxHopKm a (b # rest) (segs, c0 @ [coord a])
            = segLoop maxHopKm b rest (if 2 \<le> length (c0 @ [coord a]) then segs @ [c0 @ [coord a]] else segs, [] @ [coord b])"
      using True by (simp only: segLoop_step if_True append_Nil)
    then show ?thesis
      using Cons.IH [of b "if 2 \<le> length (c0 @ [coord a]) then segs @ [c0 @ [coord a]] else segs" "[]"] True r
      by (simp del: segLoop.simps)
  next
    case False
    have "segLoop maxHopKm a (b # rest) (segs, c0 @ [coord a])
            = segLoop maxHopKm b rest (segs, (c0 @ [coord a]) @ [coord b])"
      using False by (simp only: segLoop_step if_False)
    then show ?thesis
      using Cons.IH [of b segs "c0 @ [coord a]"] False r
      by (simp del: segLoop.simps)
  qed
qed

lemma split_refines:
  "splitByDatelineAndHops pts cutoffTs maxHopKm = segments_spec pts cutoffTs maxHopKm"
proof -
  let ?f = "filter (\<lambda>p. js_le cutoffTs (ts p)) pts"
  show ?thesis
  proof (cases ?f)
    case Nil
    then show ?thesis by (simp add: splitByDatelineAndHops_def segments_spec_def)
  next
    case (Cons f0 rest)
    show ?thesis
    proof (cases rest)
      case Nil
      with Cons show ?thesis by (simp add: splitByDatelineAndHops_def segments_spec_def)
    next
      case (Cons f1 rest')
      obtain r rs where r: "runs (breaks_between maxHopKm) (f0 # rest) = r # rs"
        using runs_nonempty [of "breaks_between maxHopKm" f0 rest]
        by (cases "runs (breaks_between maxHopKm) (f0 # rest)") auto
      have len: "\<not> length ?f < 2" using \<open>?f = f0 # rest\<close> Cons by simp
      have "splitByDatelineAndHops pts cutoffTs maxHopKm
              = (case segLoop maxHopKm f0 rest ([], [] @ [coord f0]) of
                   (segs, cur) \<Rightarrow> if 2 \<le> length cur then segs @ [cur] else segs)"
        using len \<open>?f = f0 # rest\<close> by (simp add: splitByDatelineAndHops_def coord_def Let_def del: segLoop.simps)
      also have "\<dots> = [] @ filter (\<lambda>r. 2 \<le> length r)
                   (case runs (breaks_between maxHopKm) (f0 # rest) of
                      [] \<Rightarrow> [] | r # rs \<Rightarrow> ([] @ map coord r) # map (map coord) rs)"
        by (rule segLoop_runs)
      also have "\<dots> = segments_spec pts cutoffTs maxHopKm"
        using r \<open>?f = f0 # rest\<close> by (simp add: segments_spec_def filter_map comp_def)
      finally show ?thesis .
    qed
  qed
qed

lemma dateline_breaks:
  assumes "lon a = Fin 179" "lon b = Fin (- 179)"
  shows "breaks_between maxHopKm a b"
  using assms by (simp add: breaks_between_def js_gt_def)

lemma degree_hop: "\<not> js_gt (haversineKm (eq_pt lo t) (eq_pt (lo + 1) t')) (Fin 800)"
proof -
  have "haversineKm (eq_pt lo t) (eq_pt (lo + 1) t') = Fin (6371 * \<bar>(lo + 1) - lo\<bar> * pi / 180)"
    by (rule haversineKm_equator) (simp_all add: eq_pt_def)
  moreover have "6371 * pi / 180 \<le> 800" using pi_less_4 by simp
  ultimately show ?thesis by (simp add: js_gt_def)
qed

lemma dateline_example:
  "splitByDatelineAndHops [eq_pt 178 0, eq_pt 179 3600, eq_pt (- 179) 7200, eq_pt (- 178) 10800] (Fin 0) (Fin 800)
     = [[(Fin 0, Fin 178), (Fin 0, Fin 179)], [(Fin 0, Fin (- 179)), (Fin 0, Fin (- 178))]]"
proof -
  have a: "\<not> breaks_between (Fin 800) (eq_pt 178 0) (eq_pt 179 3600)"
    using degree_hop [of 178 0 3600] by (simp add: breaks_between_def eq_pt_def js_gt_def)
  have b: "breaks_between (Fin 800) (eq_pt 179 3600) (eq_pt (- 179) 7200)"
    by (rule dateline_breaks) (simp_all add: eq_pt_def)
  have c: "\<not> breaks_between (Fin 800) (eq_pt (- 179) 7200) (eq_pt (- 178) 10800)"
    using degree_hop [of "- 179" 7200 10800] by (simp add: breaks_between_def eq_pt_def js_gt_def)
  have f: "filter (\<lambda>p. js_le (Fin 0) (ts p)) [eq_pt 178 0, eq_pt 179 3600, eq_pt (- 179) 7200, eq_pt (- 178) 10800]
             = [eq_pt 178 0, eq_pt 179 3600, eq_pt (- 179) 7200, eq_pt (- 178) 10800]"
    by (simp add: eq_pt_def)
  show ?thesis
    unfolding split_refines segments_spec_def f using a b c by (simp add: coord_def eq_pt_def)
qed

text \<open>
  C9. \<open>splitByDatelineAndHops\<close> gives, for the points at or after the cutoff and in their
  order, the maximal runs of points without a break, a break lying between two consecutive
  points whose longitudes differ by more than 180 degrees or that are farther apart than
  the cap, and keeps the runs of at least two points. Two consecutive points at longitudes
  179 and -179 are always separated by a break: the track 178, 179, -179, -178 on the
  equator gives the two segments on either side of it.
\<close>

theorem split_by_dateline_and_hops:
  "splitByDatelineAndHops pts cutoffTs maxHopKm = segments_spec pts cutoffTs maxHopKm
   \<and> (lon a = Fin 179 \<and> lon b = Fin (- 179) \<longrightarrow> breaks_between maxHopKm a b)
   \<and> splitByDatelineAndHops
        [eq_pt 178 0, eq_pt 179 3600, eq_pt (- 179) 7200, eq_pt (- 178) 10800] (Fin 0) (Fin 800)
       = [[(Fin 0, Fin 178), (Fin 0, Fin 179)], [(Fin 0, Fin (- 179)), (Fin 0, Fin (- 178))]]"
proof (intro conjI impI)
  show "splitByDatelineAndHops pts cutoffTs maxHopKm = segments_spec pts cutoffTs maxHopKm"
    by (rule split_refines)
next
  assume "lon a = Fin 179 \<and> lon b = Fin (- 179)"
  then show "breaks_between maxHopKm a b" by (intro dateline_breaks) simp_all
next
  show "splitByDatelineAndHops
        [eq_pt 178 0, eq_pt 179 3600, eq_pt (- 179) 7200, eq_pt (- 178) 10800] (Fin 0) (Fin 800)
       = [[(Fin 0, Fin 178), (Fin 0, Fin 179)], [(Fin 0, Fin (- 179)), (Fin 0, Fin (- 178))]]"
    by (rule dateline_example)
qed

theorem split_by_dateline_and_hops_witness:
  "lon (eq_pt 179 3600) = Fin 179 \<and> lon (eq_pt (- 179) 7200) = Fin (- 179)
   \<and> breaks_between (Fin 800) (eq_pt 179 3600) (eq_pt (- 179) 7200)
   \<and> segments_spec [eq_pt 178 0, eq_pt 179 3600, eq_pt (- 179) 7200, eq_pt (- 178) 10800] (Fin 0) (Fin 800)
       = [[(Fin 0, Fin 178), (Fin 0, Fin 179)], [(Fin 0, Fin (- 179)), (Fin 0, Fin (- 178))]]"
proof -
  have l: "lon (eq_pt 179 3600) = Fin 179 \<and> lon (eq_pt (- 179) 7200) = Fin (- 179)"
    by (simp add: eq_pt_def)
  note t = split_by_dateline_and_hops
    [of "[eq_pt 178 0, eq_pt 179 3600, eq_pt (- 179) 7200, eq_pt (- 178) 10800]" "Fin 0" "Fin 800"
        "eq_pt 179 3600" "eq_pt (- 179) 7200"]
  from t have a: "breaks_between (Fin 800) (eq_pt 179 3600) (eq_pt (- 179) 7200)"
    using l by blast
  from t have b: "segments_spec [eq_pt 178 0, eq_pt 179 3600, eq_pt (- 179) 7200, eq_pt (- 178) 10800] (Fin 0) (Fin 800)
       = [[(Fin 0, Fin 178), (Fin 0, Fin 179)], [(Fin 0, Fin (- 179)), (Fin 0, Fin (- 178))]]"
    by (elim conjE) (erule subst, assumption)
  from l a b show ?thesis by (intro conjI) simp_all
qed

section \<open>Extraction\<close>

lemma rowA_ts: "ob \<in> set (rowA pf t row) \<Longrightarrow> ts ob = t"
  by (auto simp: rowA_def mkObs_def Let_def split: json.splits if_splits)

lemma recordB_ts: "recordB pf t obj = Inr os \<Longrightarrow> ob \<in> set os \<Longrightarrow> ts ob = t"
  by (auto simp: recordB_def mkObs_def Let_def split: if_splits)

lemma recordsB_ts: "recordsB pf t objs = Inr os \<Longrightarrow> ob \<in> set os \<Longrightarrow> ts ob = t"
proof (induction objs arbitrary: os)
  case Nil
  then show ?case by simp
next
  case (Cons obj objs)
  then show ?case by (auto split: sum.splits dest: recordB_ts)
qed

lemma extract_AB_ts:
  assumes "isArray first \<or> typeof_object first"
    and "extractHourPoints pf now (JArr (first # rest)) idx = Inr os" "ob \<in> set os"
  shows "ts ob = toEpochSecondsFromHourIdx now idx"
proof (cases "isArray first")
  case True
  with assms(2,3) show ?thesis
    by (auto simp: extractHourPoints_def Let_def dest: rowA_ts)
next
  case False
  with assms(1) have "typeof_object first" by simp
  with False assms(2) have "recordsB pf (toEpochSecondsFromHourIdx now idx) (first # rest) = Inr os"
    by (simp add: extractHourPoints_def Let_def)
  from recordsB_ts [OF this assms(3)] show ?thesis .
qed

lemma field_jstr_neq [simp]:
  "field (JObj ((jstr k, v) # kvs)) k' = (if jstr k = jstr k' then Some v else field (JObj kvs) k')"
  by simp

lemma pushIfValid_numeric:
  assumes "field obj ''lat'' = Some (JNum (Fin la))" "field obj ''lon'' = Some (JNum (Fin lo))"
    "field obj ''ts'' = Some (JNum x)"
  shows "\<exists>ob. pushIfValid pf t obj = [ob] \<and> ts ob = epochOfNumber x \<and> lat ob = Fin la \<and> lon ob = Fin lo"
  using assms by (simp add: pushIfValid_def firstOf_def nullish_def Let_def mkObs_def)

lemma extract_object:
  "extractHourPoints pf now (JObj kvs) idx =
     Inr (pushIfValid pf (toEpochSecondsFromHourIdx now idx) (JObj kvs)
          @ concat (map (\<lambda>kv. walk pf (toEpochSecondsFromHourIdx now idx) (snd kv)) kvs))"
  by (simp add: extractHourPoints_def Let_def)

lemma extract_honours_ts:
  assumes "field (JObj kvs) ''lat'' = Some (JNum (Fin la))" "field (JObj kvs) ''lon'' = Some (JNum (Fin lo))"
    "field (JObj kvs) ''ts'' = Some (JNum x)"
  shows "\<exists>ob more. extractHourPoints pf now (JObj kvs) idx = Inr (ob # more)
           \<and> ts ob = epochOfNumber x \<and> lat ob = Fin la \<and> lon ob = Fin lo"
proof -
  from pushIfValid_numeric [OF assms, of pf "toEpochSecondsFromHourIdx now idx"]
  obtain ob where "pushIfValid pf (toEpochSecondsFromHourIdx now idx) (JObj kvs) = [ob]"
    "ts ob = epochOfNumber x" "lat ob = Fin la" "lon ob = Fin lo" by blast
  then show ?thesis unfolding extract_object by simp
qed

lemma jstr_lat_lon [simp]:
  "jstr ''lat'' \<noteq> jstr ''lon''" "jstr ''lat'' \<noteq> jstr ''ts''" "jstr ''lon'' \<noteq> jstr ''ts''"
  by (simp_all add: jstr_def)

lemma rec12_at_alone:
  "extractHourPoints pf now (rec12_at x) idx = Inr [mkObs (epochOfNumber (Fin x)) (Fin 1) (Fin 2) None]"
  by (simp add: rec12_at_def extractHourPoints_def pushIfValid_def firstOf_def nullish_def jstr_def)

lemma rec12_at_in_array:
  "extractHourPoints pf now (JArr [rec12_at x]) idx
     = Inr [mkObs (toEpochSecondsFromHourIdx now idx) (Fin 1) (Fin 2) None]"
  by (simp add: rec12_at_def extractHourPoints_def recordB_def firstOf_def nullish_def jstr_def)

lemma recordB_object:
  "obj \<noteq> JNull \<Longrightarrow> recordB pf t obj = Inr (obsOfRecord pf t obj)"
  by (simp add: obsOfRecord_def recordB_def Let_def)

lemma recordsB_objects:
  "\<forall>r \<in> set recs. r \<noteq> JNull \<Longrightarrow> recordsB pf t recs = Inr (concat (map (obsOfRecord pf t) recs))"
  by (induction recs) (simp_all add: recordB_object)

lemma obsOfRecord_invalid: "invalid_record pf obj \<Longrightarrow> obsOfRecord pf t obj = []"
  by (auto simp: obsOfRecord_def recordB_def invalid_record_def Let_def)

lemma obsOfRecord_valid:
  "obj \<noteq> JNull \<Longrightarrow> \<not> invalid_record pf obj \<Longrightarrow> \<exists>ob. obsOfRecord pf t obj = [ob] \<and> ts ob = t"
  by (auto simp: obsOfRecord_def recordB_def invalid_record_def Let_def mkObs_def)

lemma caseB_records_independent:
  assumes "\<forall>r \<in> set (first # rest). r \<noteq> JNull" "\<not> isArray first" "typeof_object first"
  shows "extractHourPoints pf now (JArr (first # rest)) idx
           = Inr (concat (map (obsOfRecord pf (toEpochSecondsFromHourIdx now idx)) (first # rest)))"
  using assms(2,3) recordsB_objects [OF assms(1)] by (simp add: extractHourPoints_def Let_def)

lemma rec12_obs: "recordB pf t rec12 = Inr [mkObs t (Fin 1) (Fin 2) None]"
  by (simp add: rec12_def recordB_def firstOf_def nullish_def jstr_def)

text \<open>
  C7. The array \<open>[{"lat": 1, "lon": 2}, null]\<close> is handled by case B, where reading a
  property of the element \<open>null\<close> throws: the extraction fails and the hour has no
  observation, though the first record alone yields one. In case A the row \<open>[null, 5]\<close>
  is not dropped: \<open>Number(null)\<close> is 0 and the row yields the observation at latitude 0.
\<close>

theorem null_element_empties_hour:
  "extractHourPoints pf now (JArr [rec12, JNull]) idx = Inl TypeError
   \<and> hourPoints pf now (JArr [rec12, JNull]) idx = []
   \<and> hourPoints pf now (JArr [rec12]) idx = [mkObs (toEpochSecondsFromHourIdx now idx) (Fin 1) (Fin 2) None]
   \<and> hourPoints pf now (JArr [JArr [JNull, JNum (Fin 5)], JArr [JNum (Fin 1), JNum (Fin 2)]]) idx
       = [mkObs (toEpochSecondsFromHourIdx now idx) (Fin 0) (Fin 5) None,
          mkObs (toEpochSecondsFromHourIdx now idx) (Fin 1) (Fin 2) None]"
proof -
  have o: "typeof_object rec12" "\<not> isArray rec12" by (simp_all add: rec12_def)
  have n: "recordB pf t JNull = Inl TypeError" for t by (simp add: recordB_def)
  have a: "extractHourPoints pf now (JArr [rec12, JNull]) idx = Inl TypeError"
    using o by (simp add: extractHourPoints_def Let_def rec12_obs n)
  have b: "extractHourPoints pf now (JArr [rec12]) idx
             = Inr [mkObs (toEpochSecondsFromHourIdx now idx) (Fin 1) (Fin 2) None]"
    using o by (simp add: extractHourPoints_def Let_def rec12_obs)
  have c: "extractHourPoints pf now (JArr [JArr [JNull, JNum (Fin 5)], JArr [JNum (Fin 1), JNum (Fin 2)]]) idx
             = Inr [mkObs (toEpochSecondsFromHourIdx now idx) (Fin 0) (Fin 5) None,
                    mkObs (toEpochSecondsFromHourIdx now idx) (Fin 1) (Fin 2) None]"
    by (simp add: extractHourPoints_def Let_def rowA_def)
  show ?thesis using a b c by (simp add: hourPoints_def)
qed

text \<open>
  C10. Where the payload is an array whose first element is an array (case A) or an
  object or \<open>null\<close> (case B), every observation extracted has the timestamp
  \<open>floor(now / 1000) - hourIdx * 3600\<close>, whatever the payload holds. In the walk of
  case C a numeric \<open>ts\<close> of an object with numeric \<open>lat\<close> and \<open>lon\<close> is taken: the object
  \<open>{"lat": 1, "lon": 2, "ts": x}\<close> alone gives the timestamp of \<open>x\<close>, the same object in
  an array gives the timestamp of the hour.
\<close>

theorem payload_timestamps_ignored:
  "((isArray first \<or> typeof_object first)
      \<and> extractHourPoints pf now (JArr (first # rest)) idx = Inr os \<and> ob \<in> set os
      \<longrightarrow> ts ob = toEpochSecondsFromHourIdx now idx)
   \<and> toEpochSecondsFromHourIdx now idx = Fin (of_int (now div 1000) - of_nat idx * 3600)
   \<and> (field (JObj kvs) ''lat'' = Some (JNum (Fin la)) \<and> field (JObj kvs) ''lon'' = Some (JNum (Fin lo))
        \<and> field (JObj kvs) ''ts'' = Some (JNum x)
      \<longrightarrow> (\<exists>ob' more. extractHourPoints pf now (JObj kvs) idx = Inr (ob' # more)
             \<and> ts ob' = epochOfNumber x \<and> lat ob' = Fin la \<and> lon ob' = Fin lo))
   \<and> extractHourPoints pf now (rec12_at y) idx = Inr [mkObs (epochOfNumber (Fin y)) (Fin 1) (Fin 2) None]
   \<and> extractHourPoints pf now (JArr [rec12_at y]) idx
       = Inr [mkObs (toEpochSecondsFromHourIdx now idx) (Fin 1) (Fin 2) None]"
proof (intro conjI impI)
  assume "(isArray first \<or> typeof_object first)
      \<and> extractHourPoints pf now (JArr (first # rest)) idx = Inr os \<and> ob \<in> set os"
  then show "ts ob = toEpochSecondsFromHourIdx now idx"
    using extract_AB_ts [of first pf now rest idx os ob] by blast
next
  show "toEpochSecondsFromHourIdx now idx = Fin (of_int (now div 1000) - of_nat idx * 3600)"
    by (simp add: toEpochSecondsFromHourIdx_def)
next
  assume "field (JObj kvs) ''lat'' = Some (JNum (Fin la)) \<and> field (JObj kvs) ''lon'' = Some (JNum (Fin lo))
        \<and> field (JObj kvs) ''ts'' = Some (JNum x)"
  then show "\<exists>ob' more. extractHourPoints pf now (JObj kvs) idx = Inr (ob' # more)
             \<and> ts ob' = epochOfNumber x \<and> lat ob' = Fin la \<and> lon ob' = Fin lo"
    by (intro extract_honours_ts) simp_all
next
  show "extractHourPoints pf now (rec12_at y) idx = Inr [mkObs (epochOfNumber (Fin y)) (Fin 1) (Fin 2) None]"
    by (rule rec12_at_alone)
next
  show "extractHourPoints pf now (JArr [rec12_at y]) idx
       = Inr [mkObs (toEpochSecondsFromHourIdx now idx) (Fin 1) (Fin 2) None]"
    by (rule rec12_at_in_array)
qed

theorem payload_timestamps_ignored_witness:
  "typeof_object (rec12_at 5)
   \<and> extractHourPoints (table_platform []) 1700000000123 (JArr [rec12_at 5]) 2
       = Inr [mkObs (Fin 1699992800) (Fin 1) (Fin 2) None]
   \<and> mkObs (Fin 1699992800) (Fin 1) (Fin 2) None \<in> set [mkObs (Fin 1699992800) (Fin 1) (Fin 2) None]
   \<and> ts (mkObs (Fin 1699992800) (Fin 1) (Fin 2) None) = toEpochSecondsFromHourIdx 1700000000123 2
   \<and> extractHourPoints (table_platform []) 1700000000123 (rec12_at 5) 2
       = Inr [mkObs (Fin 5) (Fin 1) (Fin 2) None]"
proof -
  let ?pf = "table_platform []"
  let ?ob = "mkObs (Fin 1699992800) (Fin 1) (Fin 2) None"
  note t = payload_timestamps_ignored [of "rec12_at 5" ?pf 1700000000123 "[]" 2 "[?ob]" ?ob _ _ _ _ 5]
  have e: "toEpochSecondsFromHourIdx 1700000000123 2 = Fin 1699992800"
    by (simp add: toEpochSecondsFromHourIdx_def)
  have r: "epochOfNumber (Fin 5) = Fin 5"
    by (simp add: epochOfNumber_def js_gt_def)
  have o: "typeof_object (rec12_at 5)" by (simp add: rec12_at_def)
  from t have a: "extractHourPoints ?pf 1700000000123 (JArr [rec12_at 5]) 2 = Inr [?ob]"
    unfolding e by blast
  from t have c: "extractHourPoints ?pf 1700000000123 (rec12_at 5) 2 = Inr [mkObs (Fin 5) (Fin 1) (Fin 2) None]"
    unfolding r by blast
  have m: "?ob \<in> set [?ob]" by simp
  from t o a m have b: "ts ?ob = toEpochSecondsFromHourIdx 1700000000123 2" by blast
  from o a m b c show ?thesis by (intro conjI)
qed

section \<open>The reconstruction run\<close>

lemma startTracks_nonempty:
  "\<forall>tr \<in> set (fst st). points tr \<noteq> [] \<Longrightarrow> \<forall>tr \<in> set (fst (startTracks ps i used st)). points tr \<noteq> []"
proof (induction ps i used st rule: startTracks.induct)
  case (1 i usedPoint st)
  then show ?case by simp
next
  case (2 p ps i usedPoint tracks nextId)
  then show ?case by (auto simp: newTrack_def)
qed

lemma linkPoints_nonempty:
  assumes "\<forall>tr \<in> set tracks. points tr \<noteq> []"
  shows "\<exists>tracks' ut up. linkPoints ps i (tracks, usedTrack, usedPoint) = Inr (tracks', ut, up)
           \<and> (\<forall>tr \<in> set tracks'. points tr \<noteq> [])"
  using assms
proof (induction ps arbitrary: i tracks usedTrack usedPoint)
  case Nil
  then show ?case by simp
next
  case (Cons p ps)
  obtain ri rk where r: "scanTracks p usedTrack tracks 0 (None, PInf) = Inr (ri, rk)"
    using scanTracks_total [OF Cons.prems, of p usedTrack 0 "(None, PInf)"] by auto
  show ?case
  proof (cases ri)
    case None
    with r show ?thesis using Cons.IH [OF Cons.prems] by simp
  next
    case (Some b)
    let ?tr = "tracks ! b"
    let ?tracks = "tracks[b := ?tr\<lparr>points := points ?tr @ [withId p (tid ?tr)]\<rparr>]"
    have "\<forall>tr \<in> set ?tracks. points tr \<noteq> []"
      using Cons.prems by (auto dest!: set_update_subset_insert [THEN subsetD])
    from Cons.IH [OF this] show ?thesis using r Some by (simp add: Let_def)
  qed
qed

lemma linkHour_nonempty:
  assumes "\<forall>tr \<in> set (fst st). points tr \<noteq> []"
  shows "\<exists>st'. linkHour pts st = Inr st' \<and> (\<forall>tr \<in> set (fst st'). points tr \<noteq> [])"
proof -
  consider "pts = []" | "pts \<noteq> []" "fst st = []" | "pts \<noteq> []" "fst st \<noteq> []" by blast
  then show ?thesis
  proof cases
    case 1
    then show ?thesis using assms by (simp add: linkHour_def)
  next
    case 2
    then show ?thesis using startTracks_nonempty [OF assms, of pts 0 "{}"] by (simp add: linkHour_def)
  next
    case 3
    obtain tracks' ut up where l: "linkPoints pts 0 (fst st, {}, {}) = Inr (tracks', ut, up)"
      and inv: "\<forall>tr \<in> set tracks'. points tr \<noteq> []"
      using linkPoints_nonempty [OF assms, of pts 0 "{}" "{}"] by blast
    have "\<forall>tr \<in> set (fst (startTracks pts 0 up (tracks', snd st))). points tr \<noteq> []"
      using inv by (intro startTracks_nonempty) auto
    then show ?thesis using 3 l by (simp add: linkHour_def)
  qed
qed

lemma linkHours_nonempty:
  assumes "\<forall>tr \<in> set (fst st). points tr \<noteq> []"
  shows "\<exists>st'. linkHours hs st = Inr st' \<and> (\<forall>tr \<in> set (fst st'). points tr \<noteq> [])"
  using assms
proof (induction hs arbitrary: st)
  case Nil
  then show ?case by simp
next
  case (Cons pts hs)
  obtain st1 where s: "linkHour pts st = Inr st1" and i: "\<forall>tr \<in> set (fst st1). points tr \<noteq> []"
    using linkHour_nonempty [OF Cons.prems] by blast
  from Cons.IH [OF i] show ?case using s by simp
qed

lemma linkTracks_total: "\<exists>trs. linkTracks hourly = Inr trs"
proof -
  obtain st' where "linkHours (rev hourly) ([], 1) = Inr st'"
    using linkHours_nonempty [of "([], 1)" "rev hourly"] by auto
  then show ?thesis by (cases st') (simp add: linkTracks_def)
qed

lemma linkHours_skip_empty: "linkHours hs st = linkHours (filter (\<lambda>h. h \<noteq> []) hs) st"
  by (induction hs arbitrary: st) (auto simp: linkHour_empty split: sum.splits)

lemma linkTracks_skip_empty: "linkTracks hourly = linkTracks (filter (\<lambda>h. h \<noteq> []) hourly)"
proof -
  have "linkHours (rev hourly) ([], 1) = linkHours (rev (filter (\<lambda>h. h \<noteq> []) hourly)) ([], 1)"
    by (subst linkHours_skip_empty) (simp add: rev_filter)
  then show ?thesis by (simp add: linkTracks_def)
qed

lemma linkTracks_no_data: "\<forall>h \<in> set hourly. h = [] \<Longrightarrow> linkTracks hourly = Inr []"
proof -
  assume "\<forall>h \<in> set hourly. h = []"
  then have "filter (\<lambda>h. h \<noteq> []) hourly = []" by (induction hourly) auto
  then show ?thesis by (subst linkTracks_skip_empty) (simp add: linkTracks_def)
qed

lemma length_hourly_of: "length (hourly_of pf clock fetched) = 24"
  by (simp add: hourly_of_def)

lemma hourly_of_nth:
  "idx < 24 \<Longrightarrow> hourly_of pf clock fetched ! idx = hourPoints pf (clock idx) (task pf (fetched idx)) idx"
  by (simp add: hourly_of_def)

lemma hourPoints_null: "hourPoints pf now JNull idx = []"
  by (simp add: hourPoints_def)

lemma hourPoints_throw: "extractHourPoints pf now v idx = Inl e \<Longrightarrow> hourPoints pf now v idx = []"
  by (simp add: hourPoints_def)

lemma task_failed: "task pf (Inl e) = JNull"
  by (simp add: task_def)

lemma task_text: "task pf (Inr txt) = safeParseJSON pf txt"
  by (simp add: task_def)

lemma GET_all_failed:
  assumes "\<forall>i < 24. \<exists>e. fetched i = Inl e"
  shows "GET pf clock fetched = Inr []"
proof -
  have "h = []" if "h \<in> set (hourly_of pf clock fetched)" for h
  proof -
    from that obtain idx where i: "idx < 24" "h = hourly_of pf clock fetched ! idx"
      by (auto simp: in_set_conv_nth length_hourly_of)
    from assms i(1) obtain e where "fetched idx = Inl e" by auto
    with i show ?thesis by (simp add: hourly_of_nth task_failed hourPoints_null)
  qed
  then show ?thesis unfolding GET_def by (intro linkTracks_no_data) auto
qed

lemma epochOfNumber_no_nan: "x \<noteq> NaN \<Longrightarrow> epochOfNumber x \<noteq> NaN"
  by (cases x) (auto simp: epochOfNumber_def)

lemma round_div_no_nan: "d \<noteq> NaN \<Longrightarrow> Math_round (js_divc d c) \<noteq> NaN"
  by (cases d) auto

lemma isNaN_iff: "isNaN x = (x = NaN)"
  by (cases x) auto

lemma toEpochSeconds_no_nan:
  assumes "\<And>v. tsRaw = Some v \<Longrightarrow> nan_free v" "toEpochSeconds pf tsRaw = Some e"
  shows "e \<noteq> NaN"
proof (cases tsRaw)
  case None
  with assms(2) show ?thesis by simp
next
  case (Some v)
  with assms(1) have nf: "nan_free v" by simp
  show ?thesis
  proof (cases v)
    case (JNum x)
    with Some assms(2) nf show ?thesis by (auto simp: epochOfNumber_no_nan)
  next
    case (JStr s)
    with Some assms(2) show ?thesis
      by (auto simp: Let_def isNaN_iff epochOfNumber_no_nan round_div_no_nan split: if_splits)
  qed (use Some assms(2) in auto)
qed

lemma field_nan_free: "nan_free obj \<Longrightarrow> field obj k = Some v \<Longrightarrow> nan_free v"
proof (cases obj)
  case (JObj kvs)
  assume "nan_free obj" "field obj k = Some v"
  with JObj have "(jstr k, v) \<in> set kvs" "list_all (\<lambda>kv. nan_free (snd kv)) kvs"
    by (auto dest: map_of_SomeD)
  then show ?thesis by (auto simp: list_all_iff)
qed auto

lemma coalesce_in: "coalesce vs = Some v \<Longrightarrow> Some v \<in> set vs"
  by (induction vs rule: coalesce.induct) (auto split: if_splits)

lemma firstOf_nan_free: "nan_free obj \<Longrightarrow> firstOf obj ks = Some v \<Longrightarrow> nan_free v"
proof -
  assume n: "nan_free obj" and f: "firstOf obj ks = Some v"
  from f have "Some v \<in> set (map (field obj) ks)" unfolding firstOf_def by (rule coalesce_in)
  then obtain k where "field obj k = Some v" by auto
  with n show ?thesis by (rule field_nan_free)
qed

lemma pushIfValid_no_nan:
  assumes "nan_free obj" "t \<noteq> NaN" "ob \<in> set (pushIfValid pf t obj)"
  shows "ts ob \<noteq> NaN"
proof -
  let ?raw = "firstOf obj [''ts'', ''time'', ''timestamp'', ''t'', ''epoch'', ''updated_at'', ''date'']"
  let ?t = "case toEpochSeconds pf ?raw of None \<Rightarrow> t | Some e \<Rightarrow> e"
  have "?t \<noteq> NaN"
  proof (cases "toEpochSeconds pf ?raw")
    case None
    with assms(2) show ?thesis by simp
  next
    case (Some e)
    from toEpochSeconds_no_nan [OF _ Some] firstOf_nan_free [OF assms(1)] have "e \<noteq> NaN" by blast
    with Some show ?thesis by simp
  qed
  moreover from assms(3) have "ts ob = ?t"
    by (auto simp: pushIfValid_def Let_def mkObs_def split: if_splits)
  ultimately show ?thesis by simp
qed

lemma walk_no_nan: "nan_free v \<Longrightarrow> t \<noteq> NaN \<Longrightarrow> ob \<in> set (walk pf t v) \<Longrightarrow> ts ob \<noteq> NaN"
proof (induction pf t v rule: walk.induct)
  case (1 pf t xs)
  then show ?case by (auto simp: list_all_iff)
next
  case (2 pf t kvs)
  from "2.prems"(3) consider "ob \<in> set (pushIfValid pf t (JObj kvs))"
    | kv where "kv \<in> set kvs" "ob \<in> set (walk pf t (snd kv))" by auto
  then show ?case
  proof cases
    case 1
    then show ?thesis using pushIfValid_no_nan "2.prems"(1,2) by blast
  next
    case 2
    moreover from 2 "2.prems"(1) have "nan_free (snd kv)" by (auto simp: list_all_iff)
    ultimately show ?thesis using "2.IH" "2.prems"(2) by blast
  qed
qed auto

lemma hour_ts_no_nan: "toEpochSecondsFromHourIdx now idx \<noteq> NaN"
  by (simp add: toEpochSecondsFromHourIdx_def)

lemma extract_no_nan:
  assumes "nan_free v" "extractHourPoints pf now v idx = Inr os" "ob \<in> set os"
  shows "ts ob \<noteq> NaN"
proof -
  let ?t = "toEpochSecondsFromHourIdx now idx"
  have w: "ts ob \<noteq> NaN" if "os = walk pf ?t v"
    using walk_no_nan [OF assms(1) hour_ts_no_nan, of ob pf now idx] assms(3) that by simp
  show ?thesis
  proof (cases "\<exists>first rest. v = JArr (first # rest) \<and> (isArray first \<or> typeof_object first)")
    case True
    then obtain first rest where v: "v = JArr (first # rest)" "isArray first \<or> typeof_object first" by blast
    from extract_AB_ts [OF v(2) assms(2) [unfolded v(1)] assms(3)] show ?thesis
      by (simp add: hour_ts_no_nan)
  next
    case False
    with assms(2) have "os = walk pf ?t v"
      by (auto simp: extractHourPoints_def Let_def split: json.splits list.splits if_splits)
    then show ?thesis by (rule w)
  qed
qed

lemma parseLines_nan_free: "platform_ok pf \<Longrightarrow> list_all nan_free (parseLines pf ls)"
  by (induction ls) (auto simp: parseLines_def List.map_filter_simps platform_ok_def split: option.splits)

lemma safeParseJSON_nan_free: "platform_ok pf \<Longrightarrow> nan_free (safeParseJSON pf txt)"
  using parseLines_nan_free [of pf]
  by (auto simp: safeParseJSON_def Let_def platform_ok_def split: option.splits)

lemma hourPoints_cases:
  "p \<in> set (hourPoints pf now v idx) \<Longrightarrow> \<exists>os. extractHourPoints pf now v idx = Inr os \<and> p \<in> set os"
  unfolding hourPoints_def by (cases "extractHourPoints pf now v idx"; cases "truthy v") simp_all

lemma hourly_no_nan:
  assumes "platform_ok pf"
  shows "\<forall>pts \<in> set (hourly_of pf clock fetched). \<forall>p \<in> set pts. ts p \<noteq> NaN"
proof (intro ballI)
  fix pts p assume "pts \<in> set (hourly_of pf clock fetched)" "p \<in> set pts"
  then obtain idx where "idx < length (hourly_of pf clock fetched)" "pts = hourly_of pf clock fetched ! idx"
    "p \<in> set pts"
    by (auto simp: in_set_conv_nth)
  then have i: "idx < 24" "p \<in> set (hourPoints pf (clock idx) (task pf (fetched idx)) idx)"
    by (simp_all add: length_hourly_of hourly_of_nth)
  have nf: "nan_free (task pf (fetched idx))"
    using safeParseJSON_nan_free [OF assms] by (simp add: task_def split: sum.splits)
  from hourPoints_cases [OF i(2)] obtain os
    where "extractHourPoints pf (clock idx) (task pf (fetched idx)) idx = Inr os" "p \<in> set os" by blast
  from extract_no_nan [OF nf this] show "ts p \<noteq> NaN" .
qed

lemma GET_invariants:
  assumes "platform_ok pf"
  shows "\<exists>trs. GET pf clock fetched = Inr trs \<and>
           (\<forall>tr \<in> set trs.
              sorted_wrt (\<lambda>a b. js_lt (ts a) (ts b)) (points tr)
              \<and> distinct (map key_of (points tr))
              \<and> (\<forall>q \<in> set (points tr). isFinite (lat q) \<and> isFinite (lon q) \<and> isFinite (ts q))
              \<and> 2 \<le> length (points tr))"
  unfolding GET_def by (rule linkTracks_invariants [OF hourly_no_nan [OF assms]])

lemma feed_platform_ok: "platform_ok feed_platform"
  by (simp add: platform_ok_def feed_platform_def table_platform_def)

lemma feed_parse: "safeParseJSON feed_platform feed_text = JArr [JArr [JNum (Fin 1), JNum (Fin 2)]]"
proof -
  have "stripBOM feed_text = feed_text" by (simp add: stripBOM_def feed_text_def jstr_def)
  then show ?thesis by (simp add: safeParseJSON_def feed_platform_def table_platform_def)
qed

lemma feed_hour:
  "hourPoints feed_platform 1700000000123 (JArr [JArr [JNum (Fin 1), JNum (Fin 2)]]) idx
     = [mkObs (Fin (1700000000 - real idx * 3600)) (Fin 1) (Fin 2) None]"
  by (simp add: hourPoints_def extractHourPoints_def rowA_def toEpochSecondsFromHourIdx_def)

lemma feed_hourly_nth:
  "idx < 24 \<Longrightarrow> hourly_of feed_platform (\<lambda>i. 1700000000123) two_hours ! idx
     = (if idx < 2 then [mkObs (Fin (1700000000 - real idx * 3600)) (Fin 1) (Fin 2) None] else [])"
  by (simp add: hourly_of_nth two_hours_def task_def feed_parse feed_hour hourPoints_null)

lemma feed_hourly:
  "filter (\<lambda>h. h \<noteq> []) (hourly_of feed_platform (\<lambda>i. 1700000000123) two_hours)
     = [[mkObs (Fin 1700000000) (Fin 1) (Fin 2) None], [mkObs (Fin 1699996400) (Fin 1) (Fin 2) None]]"
proof -
  let ?f = "\<lambda>idx. hourPoints feed_platform 1700000000123 (task feed_platform (two_hours idx)) idx"
  have s: "[0..<24] = [0, 1] @ [2..<24]"
    by code_simp
  have e: "filter (\<lambda>h. h \<noteq> []) (map ?f [2..<24]) = []"
    by (simp add: filter_empty_conv two_hours_def task_def hourPoints_null)
  have "?f 0 = [mkObs (Fin 1700000000) (Fin 1) (Fin 2) None]"
    "?f 1 = [mkObs (Fin 1699996400) (Fin 1) (Fin 2) None]"
    by (simp_all add: two_hours_def task_def feed_parse feed_hour)
  then show ?thesis unfolding hourly_of_def s map_append filter_append e by simp
qed

lemma feed_GET: "GET feed_platform (\<lambda>i. 1700000000123) two_hours = Inr [feed_track]"
proof -
  let ?o0 = "mkObs (Fin 1700000000) (Fin 1) (Fin 2) None"
  let ?o1 = "mkObs (Fin 1699996400) (Fin 1) (Fin 2) None"
  have "haversineKm ?o1 ?o0 = Fin 0" by (rule haversineKm_same) (simp_all add: mkObs_def)
  then have "gate_ok ?o0 ?o1" by (simp add: gate_ok_def mkObs_def)
  then have "successively (\<lambda>a b. gate_ok b a) [?o1, ?o0]" by simp
  from linkTracks_single_object [OF this]
  have "linkTracks [[?o0], [?o1]] = Inr [feed_track]" by (simp add: feed_track_def mkId_1)
  then show ?thesis unfolding GET_def by (subst linkTracks_skip_empty) (simp only: feed_hourly)
qed

section \<open>The tracks of a run\<close>

text \<open>
  C3. On a platform whose \<open>JSON.parse\<close> yields no \<open>NaN\<close>, \<open>GET\<close> returns, and every
  track it returns has its points in strictly increasing order of \<open>ts\<close>, no two points
  with the same key \<open>(id, ts, lat.toFixed(5), lon.toFixed(5))\<close>, finite \<open>lat\<close>, \<open>lon\<close>
  and \<open>ts\<close> in every point, and at least two points. The same holds of \<open>linkTracks\<close> on
  any hourly lists without a \<open>NaN\<close> timestamp.
\<close>

theorem exposed_tracks_invariants:
  "(platform_ok pf \<longrightarrow>
      (\<exists>trs. GET pf clock fetched = Inr trs \<and>
         (\<forall>tr \<in> set trs.
            sorted_wrt (\<lambda>a b. js_lt (ts a) (ts b)) (points tr)
            \<and> distinct (map key_of (points tr))
            \<and> (\<forall>q \<in> set (points tr). isFinite (lat q) \<and> isFinite (lon q) \<and> isFinite (ts q))
            \<and> 2 \<le> length (points tr))))
   \<and> ((\<forall>pts \<in> set hourly. \<forall>p \<in> set pts. ts p \<noteq> NaN) \<longrightarrow>
        (\<exists>trs. linkTracks hourly = Inr trs \<and>
           (\<forall>tr \<in> set trs.
              sorted_wrt (\<lambda>a b. js_lt (ts a) (ts b)) (points tr)
              \<and> distinct (map key_of (points tr))
              \<and> (\<forall>q \<in> set (points tr). isFinite (lat q) \<and> isFinite (lon q) \<and> isFinite (ts q))
              \<and> 2 \<le> length (points tr))))"
proof (rule conjI; rule impI)
  assume "platform_ok pf"
  then show "\<exists>trs. GET pf clock fetched = Inr trs \<and>
         (\<forall>tr \<in> set trs.
            sorted_wrt (\<lambda>a b. js_lt (ts a) (ts b)) (points tr)
            \<and> distinct (map key_of (points tr))
            \<and> (\<forall>q \<in> set (points tr). isFinite (lat q) \<and> isFinite (lon q) \<and> isFinite (ts q))
            \<and> 2 \<le> length (points tr))"
    by (rule GET_invariants)
next
  assume "\<forall>pts \<in> set hourly. \<forall>p \<in> set pts. ts p \<noteq> NaN"
  then show "\<exists>trs. linkTracks hourly = Inr trs \<and>
           (\<forall>tr \<in> set trs.
              sorted_wrt (\<lambda>a b. js_lt (ts a) (ts b)) (points tr)
              \<and> distinct (map key_of (points tr))
              \<and> (\<forall>q \<in> set (points tr). isFinite (lat q) \<and> isFinite (lon q) \<and> isFinite (ts q))
              \<and> 2 \<le> length (points tr))"
    by (rule linkTracks_invariants)
qed

theorem exposed_tracks_invariants_witness:
  "platform_ok feed_platform
   \<and> GET feed_platform (\<lambda>i. 1700000000123) two_hours = Inr [feed_track]
   \<and> sorted_wrt (\<lambda>a b. js_lt (ts a) (ts b)) (points feed_track)
   \<and> distinct (map key_of (points feed_track))
   \<and> list_all (\<lambda>q. isFinite (lat q) \<and> isFinite (lon q) \<and> isFinite (ts q)) (points feed_track)
   \<and> 2 \<le> length (points feed_track)"
proof -
  from exposed_tracks_invariants [THEN conjunct1, of feed_platform "\<lambda>i. 1700000000123" two_hours, THEN mp,
    OF feed_platform_ok]
  obtain trs where t: "GET feed_platform (\<lambda>i. 1700000000123) two_hours = Inr trs"
    and i: "\<forall>tr \<in> set trs.
            sorted_wrt (\<lambda>a b. js_lt (ts a) (ts b)) (points tr)
            \<and> distinct (map key_of (points tr))
            \<and> (\<forall>q \<in> set (points tr). isFinite (lat q) \<and> isFinite (lon q) \<and> isFinite (ts q))
            \<and> 2 \<le> length (points tr)"
    by blast
  from t have "trs = [feed_track]" by (simp only: feed_GET sum.inject)
  with i have "sorted_wrt (\<lambda>a b. js_lt (ts a) (ts b)) (points feed_track)
            \<and> distinct (map key_of (points feed_track))
            \<and> (\<forall>q \<in> set (points feed_track). isFinite (lat q) \<and> isFinite (lon q) \<and> isFinite (ts q))
            \<and> 2 \<le> length (points feed_track)" by simp
  then show ?thesis using feed_platform_ok feed_GET by (simp only: list_all_iff) blast
qed

text \<open>
  C6. \<open>GET\<close> returns a list of tracks whatever the outcomes of the 24 fetches. The
  observations of an hour depend on the outcome of its own fetch only; they are none
  where the fetch failed, where nothing could be parsed from the text, and where the
  extraction threw. Where all fetches fail the result is the empty list of tracks.
\<close>

theorem fetch_failures_isolated:
  "(\<exists>trs. GET pf clock fetched = Inr trs)
   \<and> length (hourly_of pf clock fetched) = 24
   \<and> (idx < 24 \<longrightarrow>
        hourly_of pf clock fetched ! idx = hourPoints pf (clock idx) (task pf (fetched idx)) idx)
   \<and> (idx < 24 \<and> fetched idx = Inl e \<longrightarrow> hourly_of pf clock fetched ! idx = [])
   \<and> (idx < 24 \<and> fetched idx = Inr txt \<and> safeParseJSON pf txt = JNull \<longrightarrow>
        hourly_of pf clock fetched ! idx = [])
   \<and> (idx < 24 \<and> fetched idx = Inr txt
        \<and> extractHourPoints pf (clock idx) (safeParseJSON pf txt) idx = Inl e' \<longrightarrow>
        hourly_of pf clock fetched ! idx = [])
   \<and> ((\<forall>i < 24. \<exists>e. fetched i = Inl e) \<longrightarrow> GET pf clock fetched = Inr [])"
proof (intro conjI impI)
  show "\<exists>trs. GET pf clock fetched = Inr trs" unfolding GET_def by (rule linkTracks_total)
next
  show "length (hourly_of pf clock fetched) = 24" by (rule length_hourly_of)
next
  assume "idx < 24"
  then show "hourly_of pf clock fetched ! idx = hourPoints pf (clock idx) (task pf (fetched idx)) idx"
    by (rule hourly_of_nth)
next
  assume "idx < 24 \<and> fetched idx = Inl e"
  then show "hourly_of pf clock fetched ! idx = []"
    by (simp add: hourly_of_nth task_failed hourPoints_null)
next
  assume "idx < 24 \<and> fetched idx = Inr txt \<and> safeParseJSON pf txt = JNull"
  then show "hourly_of pf clock fetched ! idx = []"
    by (simp add: hourly_of_nth task_text hourPoints_null)
next
  assume "idx < 24 \<and> fetched idx = Inr txt
        \<and> extractHourPoints pf (clock idx) (safeParseJSON pf txt) idx = Inl e'"
  then show "hourly_of pf clock fetched ! idx = []"
    by (simp add: hourly_of_nth task_text hourPoints_throw)
next
  assume "\<forall>i < 24. \<exists>e. fetched i = Inl e"
  then show "GET pf clock fetched = Inr []" by (rule GET_all_failed)
qed

theorem fetch_failures_isolated_witness:
  "GET feed_platform (\<lambda>i. 1700000000123) (\<lambda>i. Inl FetchError) = Inr []
   \<and> two_hours 5 = Inl FetchError
   \<and> hourly_of feed_platform (\<lambda>i. 1700000000123) two_hours ! 5 = []
   \<and> hourly_of feed_platform (\<lambda>i. 1700000000123) two_hours ! 1
       = hourPoints feed_platform 1700000000123 (task feed_platform (two_hours 1)) 1
   \<and> GET feed_platform (\<lambda>i. 1700000000123) two_hours = Inr [feed_track]"
proof -
  note t1 = fetch_failures_isolated [of feed_platform "\<lambda>i. 1700000000123" "\<lambda>i. Inl FetchError" 0 FetchError]
  note t2 = fetch_failures_isolated [of feed_platform "\<lambda>i. 1700000000123" two_hours 5 FetchError]
  note t3 = fetch_failures_isolated [of feed_platform "\<lambda>i. 1700000000123" two_hours 1]
  have a: "GET feed_platform (\<lambda>i. 1700000000123) (\<lambda>i. Inl FetchError) = Inr []"
    using t1 by blast
  have f: "two_hours 5 = Inl FetchError" by (simp add: two_hours_def)
  have b: "hourly_of feed_platform (\<lambda>i. 1700000000123) two_hours ! 5 = []"
  proof -
    have "(5::nat) < 24 \<and> two_hours 5 = Inl FetchError" using f by simp
    with t2 show ?thesis by blast
  qed
  have c: "hourly_of feed_platform (\<lambda>i. 1700000000123) two_hours ! 1
       = hourPoints feed_platform 1700000000123 (task feed_platform (two_hours 1)) 1"
  proof -
    have "(1::nat) < 24" by simp
    with t3 show ?thesis by blast
  qed
  from a f b c feed_GET show ?thesis by (intro conjI)
qed

section \<open>Recovery of a payload: the lines\<close>

lemma two_numbers_val: "two_numbers = [49, 10, 50]"
  by (simp add: two_numbers_def jstr_def)

lemma two_objects_val:
  "two_objects = [123, 34, 108, 97, 116, 34, 58, 49, 44, 34, 108, 111, 110, 34, 58, 50, 125, 10,
                  123, 34, 108, 97, 116, 34, 58, 51, 44, 34, 108, 111, 110, 34, 58, 52, 125]"
  by (simp add: two_objects_def jstr_def)

lemma cleanup_two_numbers: "cleanup [49, 10, 50] = [49, 10, 50]"
  by (simp add: cleanup_def m_quote_def m_word_def m_comma_def)

lemma cleanup_two_objects:
  "cleanup [123, 34, 108, 97, 116, 34, 58, 49, 44, 34, 108, 111, 110, 34, 58, 50, 125, 10,
            123, 34, 108, 97, 116, 34, 58, 51, 44, 34, 108, 111, 110, 34, 58, 52, 125]
   = [123, 34, 108, 97, 116, 34, 58, 49, 44, 34, 108, 111, 110, 34, 58, 50, 125, 10,
      123, 34, 108, 97, 116, 34, 58, 51, 44, 34, 108, 111, 110, 34, 58, 52, 125]"
  by (simp add: cleanup_def m_quote_def m_word_def m_comma_def ci_prefix_def jstr_def isSpace_def foldCase_def)

lemma splitLines_nonempty: "splitLines s \<noteq> []"
  by (induction s) (auto split: list.splits)

lemma joinLF_Cons: "ls \<noteq> [] \<Longrightarrow> joinLF ((c # l) # tl ls) = c # joinLF (l # tl ls)"
  by (cases "tl ls") auto

lemma splitLines_join: "joinLF (splitLines s) = dropCRLF s"
proof (induction s)
  case Nil
  then show ?case by simp
next
  case (Cons c cs)
  obtain l ls where sp: "splitLines cs = l # ls"
    using splitLines_nonempty [of cs] by (cases "splitLines cs") auto
  show ?case
  proof (cases "c = 13 \<and> (case cs of [] \<Rightarrow> False | d # ds \<Rightarrow> d = 10)")
    case True
    then show ?thesis using Cons.IH by simp
  next
    case False
    note nf = False
    show ?thesis
    proof (cases "c = 10")
      case True
      then show ?thesis using Cons.IH sp by simp
    next
      case False
      have "joinLF ((c # l) # ls) = c # joinLF (l # ls)" by (cases ls) auto
      then show ?thesis using Cons.IH sp nf False by simp
    qed
  qed
qed

lemma splitLines_no_LF: "l \<in> set (splitLines s) \<Longrightarrow> 10 \<notin> set l"
proof (induction s arbitrary: l)
  case Nil
  then show ?case by simp
next
  case (Cons c cs)
  obtain l0 ls where sp: "splitLines cs = l0 # ls"
    using splitLines_nonempty [of cs] by (cases "splitLines cs") auto
  from Cons.prems sp Cons.IH show ?case
    by (auto split: if_splits)
qed

lemma parseLines_filter:
  "parseLines pf ls = map (\<lambda>l. the (JSON_parse pf l)) (filter (\<lambda>l. JSON_parse pf l \<noteq> None) ls)"
  by (simp add: parseLines_def List.map_filter_def comp_def)

lemma parseLines_empty: "(parseLines pf ls \<noteq> []) = (\<exists>l \<in> set ls. JSON_parse pf l \<noteq> None)"
  by (simp add: parseLines_filter filter_empty_conv)

lemma safeParseJSON_stage3:
  assumes "JSON_parse pf (stripBOM text) = None" "JSON_parse pf (cleanup (stripBOM text)) = None"
  shows "safeParseJSON pf text =
           (if \<exists>l \<in> set (jsonLines (cleanup (stripBOM text))). JSON_parse pf l \<noteq> None
            then JArr (parseLines pf (jsonLines (cleanup (stripBOM text))))
            else stage4 pf (cleanup (stripBOM text)))"
proof -
  let ?ls = "jsonLines (cleanup (stripBOM text))"
  have "(0 < length ?ls \<and> 0 < length (parseLines pf ?ls)) = (\<exists>l \<in> set ?ls. JSON_parse pf l \<noteq> None)"
    using parseLines_empty [of pf ?ls] by auto
  then show ?thesis using assms by (simp add: safeParseJSON_def stage4_def Let_def)
qed

lemma stripBOM_two_numbers: "stripBOM two_numbers = [49, 10, 50]"
  by (simp add: stripBOM_def two_numbers_val)

lemma stripBOM_two_objects: "stripBOM two_objects = two_objects"
  by (simp add: stripBOM_def two_objects_val)

lemma numbers_parse:
  "JSON_parse numbers_platform [49, 10, 50] = None"
  "JSON_parse numbers_platform [49] = Some (JNum (Fin 1))"
  "JSON_parse numbers_platform [50] = Some (JNum (Fin 2))"
  by (simp_all add: numbers_platform_def table_platform_def jstr_def)

lemma numbers_spec:
  "jsonl_spec numbers_platform [49, 10, 50] = Some (JArr [JNum (Fin 1), JNum (Fin 2)])"
  by (simp add: jsonl_spec_def parseLines_def List.map_filter_simps numbers_parse)

lemma numbers_code: "safeParseJSON numbers_platform two_numbers = JNull"
  by (simp add: safeParseJSON_def stripBOM_two_numbers cleanup_two_numbers numbers_parse
      jsonLines_def trim_def isSpace_def parseLines_def List.map_filter_simps firstBlock_def)

lemma objects_lines:
  "jsonLines two_objects = [jstr ''{\"lat\":1,\"lon\":2}'', jstr ''{\"lat\":3,\"lon\":4}'']"
  by (simp add: two_objects_val jsonLines_def trim_def isSpace_def jstr_def)

lemma objects_parse:
  "JSON_parse objects_platform two_objects = None"
  "JSON_parse objects_platform (jstr ''{\"lat\":1,\"lon\":2}'') = Some rec12"
  "JSON_parse objects_platform (jstr ''{\"lat\":3,\"lon\":4}'') = Some rec34"
  by (simp_all add: objects_platform_def table_platform_def two_objects_val jstr_def)

lemma cleanup_objects: "cleanup two_objects = two_objects"
  unfolding two_objects_val by (rule cleanup_two_objects)

lemma objects_code: "safeParseJSON objects_platform two_objects = JArr [rec12, rec34]"
  by (simp add: safeParseJSON_def stripBOM_two_objects cleanup_objects objects_parse objects_lines
      parseLines_def List.map_filter_simps)

lemma objects_extract:
  "extractHourPoints pf now (JArr [rec12, rec34]) idx
     = Inr [mkObs (toEpochSecondsFromHourIdx now idx) (Fin 1) (Fin 2) None,
            mkObs (toEpochSecondsFromHourIdx now idx) (Fin 3) (Fin 4) None]"
proof -
  have "recordB pf t rec34 = Inr [mkObs t (Fin 3) (Fin 4) None]" for t
    by (simp add: rec34_def recordB_def firstOf_def nullish_def jstr_def)
  moreover have "typeof_object rec12" "\<not> isArray rec12" by (simp_all add: rec12_def)
  ultimately show ?thesis by (simp add: extractHourPoints_def Let_def rec12_obs)
qed

section \<open>Stage 3 of the recovery\<close>

text \<open>
  C8, as amended. Where the text parses neither as it is nor after the cleanup, stage 3
  splits the cleaned text at the line breaks, trims every line, keeps the lines that are
  not empty and begin with \<open>{\<close> or \<open>[\<close>, parses each of them on its own and collects what
  parses, in order; the stage succeeds, with that list, if and only if one of those lines
  parses, and stage 4 decides otherwise. The text of the two lines \<open>{"lat":1,"lon":2}\<close>
  and \<open>{"lat":3,"lon":4}\<close> gives the list of the two objects, and two observations.
\<close>

theorem jsonl_stage:
  "(JSON_parse pf (stripBOM text) = None \<and> JSON_parse pf (cleanup (stripBOM text)) = None \<longrightarrow>
      safeParseJSON pf text =
        (if \<exists>l \<in> set (jsonLines (cleanup (stripBOM text))). JSON_parse pf l \<noteq> None
         then JArr (parseLines pf (jsonLines (cleanup (stripBOM text))))
         else stage4 pf (cleanup (stripBOM text))))
   \<and> jsonLines cleaned = filter (\<lambda>l. l \<noteq> [] \<and> (hd l = 123 \<or> hd l = 91)) (map trim (splitLines cleaned))
   \<and> joinLF (splitLines cleaned) = dropCRLF cleaned
   \<and> (\<forall>l \<in> set (splitLines cleaned). 10 \<notin> set l)
   \<and> parseLines pf ls = map (\<lambda>l. the (JSON_parse pf l)) (filter (\<lambda>l. JSON_parse pf l \<noteq> None) ls)
   \<and> safeParseJSON objects_platform two_objects = JArr [rec12, rec34]
   \<and> extractHourPoints objects_platform now (JArr [rec12, rec34]) idx
       = Inr [mkObs (toEpochSecondsFromHourIdx now idx) (Fin 1) (Fin 2) None,
              mkObs (toEpochSecondsFromHourIdx now idx) (Fin 3) (Fin 4) None]"
proof (intro conjI impI ballI)
  assume "JSON_parse pf (stripBOM text) = None \<and> JSON_parse pf (cleanup (stripBOM text)) = None"
  then show "safeParseJSON pf text =
        (if \<exists>l \<in> set (jsonLines (cleanup (stripBOM text))). JSON_parse pf l \<noteq> None
         then JArr (parseLines pf (jsonLines (cleanup (stripBOM text))))
         else stage4 pf (cleanup (stripBOM text)))"
    by (intro safeParseJSON_stage3) simp_all
next
  show "jsonLines cleaned = filter (\<lambda>l. l \<noteq> [] \<and> (hd l = 123 \<or> hd l = 91)) (map trim (splitLines cleaned))"
    by (rule jsonLines_def)
next
  show "joinLF (splitLines cleaned) = dropCRLF cleaned" by (rule splitLines_join)
next
  fix l assume "l \<in> set (splitLines cleaned)"
  then show "10 \<notin> set l" by (rule splitLines_no_LF)
next
  show "parseLines pf ls = map (\<lambda>l. the (JSON_parse pf l)) (filter (\<lambda>l. JSON_parse pf l \<noteq> None) ls)"
    by (rule parseLines_filter)
next
  show "safeParseJSON objects_platform two_objects = JArr [rec12, rec34]" by (rule objects_code)
next
  show "extractHourPoints objects_platform now (JArr [rec12, rec34]) idx
       = Inr [mkObs (toEpochSecondsFromHourIdx now idx) (Fin 1) (Fin 2) None,
              mkObs (toEpochSecondsFromHourIdx now idx) (Fin 3) (Fin 4) None]"
    by (rule objects_extract)
qed

theorem jsonl_stage_witness:
  "JSON_parse objects_platform (stripBOM two_objects) = None
   \<and> JSON_parse objects_platform (cleanup (stripBOM two_objects)) = None
   \<and> jsonLines (cleanup (stripBOM two_objects)) = [jstr ''{\"lat\":1,\"lon\":2}'', jstr ''{\"lat\":3,\"lon\":4}'']
   \<and> safeParseJSON objects_platform two_objects
       = JArr (parseLines objects_platform (jsonLines (cleanup (stripBOM two_objects))))
   \<and> parseLines objects_platform (jsonLines (cleanup (stripBOM two_objects))) = [rec12, rec34]"
proof -
  have c: "cleanup (stripBOM two_objects) = two_objects"
    by (simp only: stripBOM_two_objects cleanup_objects)
  have h: "JSON_parse objects_platform (stripBOM two_objects) = None
           \<and> JSON_parse objects_platform (cleanup (stripBOM two_objects)) = None"
    by (simp add: cleanup_objects stripBOM_two_objects objects_parse)
  have l: "jsonLines (cleanup (stripBOM two_objects)) = [jstr ''{\"lat\":1,\"lon\":2}'', jstr ''{\"lat\":3,\"lon\":4}'']"
    by (simp only: c objects_lines)
  have e: "\<exists>l \<in> set (jsonLines (cleanup (stripBOM two_objects))). JSON_parse objects_platform l \<noteq> None"
    unfolding l by (simp add: objects_parse)
  from jsonl_stage [THEN conjunct1, of objects_platform two_objects, THEN mp, OF h] e
  have s: "safeParseJSON objects_platform two_objects
       = JArr (parseLines objects_platform (jsonLines (cleanup (stripBOM two_objects))))"
    by (simp only: if_True)
  have p: "parseLines objects_platform (jsonLines (cleanup (stripBOM two_objects))) = [rec12, rec34]"
    unfolding l by (simp add: parseLines_def List.map_filter_simps objects_parse)
  from h l s p show ?thesis by (intro conjI) simp_all
qed

theorem jsonl_skips_plain_lines:
  "JSON_parse numbers_platform (stripBOM two_numbers) = None
   \<and> JSON_parse numbers_platform (cleanup (stripBOM two_numbers)) = None
   \<and> jsonl_spec numbers_platform (cleanup (stripBOM two_numbers)) = Some (JArr [JNum (Fin 1), JNum (Fin 2)])
   \<and> safeParseJSON numbers_platform two_numbers = JNull"
  by (simp add: stripBOM_two_numbers cleanup_two_numbers numbers_parse numbers_spec numbers_code)

section \<open>Timestamps that are not finite\<close>

lemma far_payload_extract: "extractHourPoints pf now (far_payload lo) idx = Inr [inf_obs lo]"
  by (simp add: far_payload_def inf_obs_def extractHourPoints_def pushIfValid_def firstOf_def
      nullish_def jstr_def epochOfNumber_def js_gt_def)

lemma quarter_turn_km:
  assumes "lat a = Fin 0" "lon a = Fin 0" "lat b = Fin 0" "lon b = Fin 90"
  shows "haversineKm a b = Fin (6371 * pi / 2)"
proof -
  have "haversineKm a b = Fin (6371 * \<bar>90 - 0\<bar> * pi / 180)"
    by (rule haversineKm_equator) (simp_all add: assms)
  then show ?thesis by simp
qed

lemma inf_obs_fields [simp]:
  "ts (inf_obs lo) = PInf" "lat (inf_obs lo) = Fin 0" "lon (inf_obs lo) = Fin lo"
  by (simp_all add: inf_obs_def mkObs_def)

lemma inf_link_dt: "link_dt (inf_obs 90) (newTrack n (inf_obs 0)) = NaN"
  by (simp add: link_dt_def newTrack_def)

lemma inf_link_km: "link_km (inf_obs 90) (newTrack n (inf_obs 0)) = Fin (6371 * pi / 2)"
  unfolding link_km_def by (rule quarter_turn_km) (simp_all add: newTrack_def)

lemma inf_not_gate: "\<not> gate_ok (inf_obs 90) (last (points (newTrack n (inf_obs 0))))"
  by (simp add: gate_ok_def)

lemma inf_linked:
  "linkHours [[inf_obs 0], [inf_obs 90]] ([], 1)
     = Inr ([\<lparr>tid = ''T1'', points = [withId (inf_obs 0) ''T1'', withId (inf_obs 90) ''T1'']\<rparr>], 2)"
proof -
  let ?tr = "newTrack (Suc 0) (inf_obs 0)"
  have ne: "points ?tr \<noteq> []" by (simp add: newTrack_def)
  have ns: "not_skipped (inf_obs 90) {} ?tr"
    unfolding not_skipped_def inf_link_dt inf_link_km by (simp add: js_gt_def)
  have "scanTracks (inf_obs 90) {} [?tr] 0 (None, PInf) = Inr (Some 0, link_km (inf_obs 90) ?tr)"
    using ns by (simp add: scanTracks_step [OF ne] inf_link_km)
  then have "linkHour [inf_obs 90] ([?tr], 2)
               = Inr ([?tr\<lparr>points := points ?tr @ [withId (inf_obs 90) (tid ?tr)]\<rparr>], 2)"
    by (simp add: linkHour_def Let_def)
  moreover have "linkHour [inf_obs 0] ([], 1) = Inr ([?tr], 2)" by (simp add: linkHour_def)
  ultimately show ?thesis by (simp add: newTrack_def mkId_1)
qed

lemma finite_not_linked:
  "linkHours [[mkObs (Fin 0) (Fin 0) (Fin 0) None], [mkObs (Fin 3600) (Fin 0) (Fin 90) None]] ([], 1)
     = Inr ([newTrack 1 (mkObs (Fin 0) (Fin 0) (Fin 0) None),
             newTrack 2 (mkObs (Fin 3600) (Fin 0) (Fin 90) None)], 3)"
proof -
  let ?a = "mkObs (Fin 0) (Fin 0) (Fin 0) None"
  let ?b = "mkObs (Fin 3600) (Fin 0) (Fin 90) None"
  let ?tr = "newTrack (Suc 0) ?a"
  have ne: "points ?tr \<noteq> []" by (simp add: newTrack_def)
  have km: "link_km ?b ?tr = Fin (6371 * pi / 2)"
    unfolding link_km_def by (rule quarter_turn_km) (simp_all add: newTrack_def mkObs_def)
  have dt: "link_dt ?b ?tr = Fin 3600" by (simp add: link_dt_def newTrack_def mkObs_def)
  have "(200::real) < 6371 * pi / 2" using pi_ge_two by simp
  then have "\<not> not_skipped ?b {} ?tr"
    unfolding not_skipped_def km dt by (simp add: js_gt_def)
  then have "scanTracks ?b {} [?tr] 0 (None, PInf) = Inr (None, PInf)"
    by (simp add: scanTracks_step [OF ne])
  then have "linkHour [?b] ([?tr], 2) = Inr ([?tr, newTrack 2 ?b], 3)"
    by (simp add: linkHour_def)
  moreover have "linkHour [?a] ([], 1) = Inr ([?tr], 2)" by (simp add: linkHour_def)
  ultimately show ?thesis by simp
qed

lemma inf_tracks_dropped: "linkTracks [[inf_obs 90], [inf_obs 0]] = Inr []"
proof -
  have "linkHours (rev [[inf_obs 90], [inf_obs 0]]) ([], 1)
     = Inr ([\<lparr>tid = ''T1'', points = [withId (inf_obs 0) ''T1'', withId (inf_obs 90) ''T1'']\<rparr>], 2)"
    using inf_linked by simp
  moreover have "dedupeAndSort [withId (inf_obs 0) ''T1'', withId (inf_obs 90) ''T1''] = []"
    by (simp add: dedupeAndSort_def withId_def)
  ultimately show ?thesis by (simp add: linkTracks_def)
qed

text \<open>
  C1. Two observations whose payloads carry the timestamp \<open>1e999\<close> have the timestamp
  \<open>Infinity\<close>; their time delta is \<open>NaN\<close>, so neither \<open>dt < 1800\<close> nor \<open>dt > 5400\<close> nor
  \<open>km > allowed\<close> holds, and the second is attached to the track of the first, a quarter
  of the equator away (about 10007 km), though the gates do not hold. The same two places
  with finite timestamps an hour apart are not linked. The points of the track are not
  finite and \<open>dedupeAndSort\<close> removes them at the end, so \<open>linkTracks\<close> returns no track
  for the two hours.
\<close>

theorem infinite_timestamps_link_ungated:
  "extractHourPoints pf now (far_payload lo) idx = Inr [inf_obs lo]
   \<and> link_dt (inf_obs 90) (newTrack 1 (inf_obs 0)) = NaN
   \<and> link_km (inf_obs 90) (newTrack 1 (inf_obs 0)) = Fin (6371 * pi / 2)
   \<and> \<not> gate_ok (inf_obs 90) (last (points (newTrack 1 (inf_obs 0))))
   \<and> linkHours [[inf_obs 0], [inf_obs 90]] ([], 1)
       = Inr ([\<lparr>tid = ''T1'', points = [withId (inf_obs 0) ''T1'', withId (inf_obs 90) ''T1'']\<rparr>], 2)
   \<and> linkHours [[mkObs (Fin 0) (Fin 0) (Fin 0) None], [mkObs (Fin 3600) (Fin 0) (Fin 90) None]] ([], 1)
       = Inr ([newTrack 1 (mkObs (Fin 0) (Fin 0) (Fin 0) None),
               newTrack 2 (mkObs (Fin 3600) (Fin 0) (Fin 90) None)], 3)
   \<and> linkTracks [[inf_obs 90], [inf_obs 0]] = Inr []"
  by (intro conjI far_payload_extract inf_link_dt inf_link_km inf_not_gate inf_linked finite_not_linked
      inf_tracks_dropped)

section \<open>A gap of one hour\<close>



lemma eq_pt_fields [simp]:
  "lat (eq_pt lo t) = Fin 0" "lon (eq_pt lo t) = Fin lo" "ts (eq_pt lo t) = Fin t"
  by (simp_all add: eq_pt_def)










section \<open>The response of the insights route\<close>

lemma jstr_keys [simp]:
  "jstr ''closest_km'' \<noteq> jstr ''id''" "jstr ''closest_km'' \<noteq> jstr ''near_count''"
  "jstr ''closest_ts'' \<noteq> jstr ''id''" "jstr ''closest_ts'' \<noteq> jstr ''near_count''"
  "jstr ''closest_ts'' \<noteq> jstr ''closest_km''"
  by (simp_all add: jstr_def)


lemma stat_json_closest_ts:
  "field (stat_json s) ''closest_ts'' = map_option num_json (closest_ts s)"
  by (simp add: stat_json_def split: option.splits)








end
